theory Spec2Isabelle
  imports Main "HOL-Library.Sublist"
begin

section \<open>The actor web worker of nact (src/lib/actor-webworker.js)\<close>

text \<open>
  The worker is one single-threaded JavaScript context. Its module-level bindings
  (\<open>busy\<close>, \<open>outstandingEffects\<close>, \<open>mailbox\<close>, \<open>f\<close>, \<open>name\<close>, \<open>path\<close>, \<open>sender\<close>,
  \<open>parent\<close>, \<open>children\<close>, \<open>stopped\<close>) are the fields of one record that every function
  takes and returns. What the platform keeps for the worker is made explicit in further
  fields: the messages handed to \<open>self.postMessage\<close>, the callbacks handed to
  \<open>thread.nextTick\<close>, whether \<open>self.close\<close> was called, the Deferred objects created so
  far, and the callbacks registered with \<open>next.then\<close> that have not run yet.
\<close>

subsection \<open>JavaScript values\<close>

text \<open>
  Values that cross the worker boundary come out of \<open>JSON.parse\<close>. A field that is
  absent from a payload reads as \<open>undefined\<close>. The worker does no arithmetic on a number
  of a payload; it only compares it and coerces it to a string. A number is therefore
  held as the text that \<open>'' + x\<close> gives for it (\<open>5\<close>, \<open>-1.5\<close>, \<open>1e+21\<close>): for the
  numbers \<open>JSON.parse\<close> yields, two are the same \<open>Map\<close> key exactly when that text is
  the same.
\<close>

datatype jsv =
    JUndefined
  | JNull
  | JBool bool
  | JNum string
  | JStr string
  | JArr "jsv list"
  | JObj "(string \<times> jsv) list"

fun join :: "string list \<Rightarrow> string" where
  "join [] = []"
| "join [x] = x"
| "join (x # y # ys) = x @ CHR '','' # join (y # ys)"

text \<open>
  \<open>'' + x\<close>: the string coercion of a value. An array joins the coercions of its
  elements with commas, \<open>null\<close> and \<open>undefined\<close> elements giving the empty string; a plain
  object gives \<open>[object Object]\<close> (a parsed object holds no function, so it cannot
  override \<open>toString\<close> with one).
\<close>

fun to_string :: "jsv \<Rightarrow> string" where
  "to_string JUndefined = ''undefined''"
| "to_string JNull = ''null''"
| "to_string (JBool b) = (if b then ''true'' else ''false'')"
| "to_string (JNum t) = t"
| "to_string (JStr s) = s"
| "to_string (JArr xs) =
     join (map (\<lambda>x. if x = JUndefined \<or> x = JNull then [] else to_string x) xs)"
| "to_string (JObj kvs) = ''[object Object]''"

text \<open>
  The keys of a JavaScript \<open>Map\<close> are compared by SameValueZero: primitives by value,
  objects and arrays by reference. Every key that reaches \<open>children\<close> is a part of a
  freshly parsed envelope, so two object keys are never the same reference.
\<close>

fun is_primitive :: "jsv \<Rightarrow> bool" where
  "is_primitive (JArr xs) = False"
| "is_primitive (JObj kvs) = False"
| "is_primitive v = True"

definition same_key :: "jsv \<Rightarrow> jsv \<Rightarrow> bool" where
  "same_key a b = (is_primitive a \<and> a = b)"

type_synonym jsmap = "(jsv \<times> jsv) list"

text \<open>\<open>Map.set\<close>: an existing key keeps its place, a new key goes last.\<close>

fun map_set :: "jsmap \<Rightarrow> jsv \<Rightarrow> jsv \<Rightarrow> jsmap" where
  "map_set [] k v = [(k, v)]"
| "map_set ((k', v') # m) k v =
     (if same_key k' k then (k', v) # m else (k', v') # map_set m k v)"

fun map_delete :: "jsmap \<Rightarrow> jsv \<Rightarrow> jsmap" where
  "map_delete [] k = []"
| "map_delete ((k', v') # m) k =
     (if same_key k' k then m else (k', v') # map_delete m k)"

datatype js_error =
    TypeError string
  | Error string

subsection \<open>Deferred (lines 12-20)\<close>

text \<open>
  A Deferred holds a promise and its two resolving functions. The resolving functions of
  an ECMAScript promise act only while the promise is pending. The constructor chains
  \<open>then\<close> and \<open>catch\<close> callbacks that set \<open>done\<close>; they run as a reaction job once the
  promise is settled, not inside \<open>resolve\<close> or \<open>reject\<close>. \<open>done\<close> starts undefined, which
  \<open>!prev.done\<close> reads as false.
\<close>

datatype promise_state = Pending | Fulfilled jsv | Rejected jsv

record Deferred =
  promise :: promise_state
  done' :: bool

definition new_Deferred :: Deferred where
  "new_Deferred = \<lparr>promise = Pending, done' = False\<rparr>"

definition resolve :: "Deferred \<Rightarrow> jsv \<Rightarrow> Deferred" where
  "resolve d v = (if promise d = Pending then d\<lparr>promise := Fulfilled v\<rparr> else d)"

definition reject :: "Deferred \<Rightarrow> jsv \<Rightarrow> Deferred" where
  "reject d e = (if promise d = Pending then d\<lparr>promise := Rejected e\<rparr> else d)"

text \<open>
  The reaction job of \<open>this.promise.then(() => { this.done = true }).catch(() => {
  this.done = true })\<close>: on fulfilment the \<open>then\<close> callback runs, on rejection the
  rejection passes through \<open>then\<close> to the \<open>catch\<close> callback.
\<close>

definition reaction :: "Deferred \<Rightarrow> Deferred" where
  "reaction d =
     (case promise d of
        Pending \<Rightarrow> d
      | Fulfilled v \<Rightarrow> d\<lparr>done' := True\<rparr>
      | Rejected e \<Rightarrow> d\<lparr>done' := True\<rparr>)"

subsection \<open>Queue (lines 22-58)\<close>

text \<open>
  The class as written: \<open>enqueue\<close> creates a node object \<open>{ item }\<close>, a node's \<open>next\<close>
  is set when a later node is appended to it, and \<open>head\<close> and \<open>tail\<close> refer to nodes.
  A node is identified by its position in the list of the nodes created so far. \<open>head\<close>
  and \<open>tail\<close> only ever refer to nodes that were created. \<open>enqueue\<close> reads
  \<open>prevTail.next\<close> only when \<open>head\<close> is set; were \<open>tail\<close> undefined then, the assignment
  would throw. \<open>dequeue\<close> leaves \<open>tail\<close> as it is. \<open>items\<close> follows the chain from
  \<open>head\<close>.
\<close>

record 'a LinkedQueue =
  nodes :: "('a \<times> nat option) list"
  head :: "nat option"
  tail :: "nat option"

definition linked_empty :: "'a LinkedQueue" where
  "linked_empty = \<lparr>nodes = [], head = None, tail = None\<rparr>"

definition linked_isEmpty :: "'a LinkedQueue \<Rightarrow> bool" where
  "linked_isEmpty q = (head q = None)"

definition linked_enqueue :: "'a LinkedQueue \<Rightarrow> 'a \<Rightarrow> js_error + 'a LinkedQueue" where
  "linked_enqueue q item' =
     (let nextTail = length (nodes q);
          q1 = q\<lparr>nodes := nodes q @ [(item', None)]\<rparr>
      in if linked_isEmpty q1 then Inr (q1\<lparr>head := Some nextTail, tail := Some nextTail\<rparr>)
         else case tail q1 of
                None \<Rightarrow> Inl (TypeError ''prevTail is undefined'')
              | Some prevTail \<Rightarrow>
                  Inr (q1\<lparr>nodes := (nodes q1)[prevTail := (fst (nodes q1 ! prevTail), Some nextTail)],
                          tail := Some nextTail\<rparr>))"

definition linked_peek :: "'a LinkedQueue \<Rightarrow> 'a option" where
  "linked_peek q = (case head q of None \<Rightarrow> None | Some h \<Rightarrow> Some (fst (nodes q ! h)))"

definition linked_dequeue :: "'a LinkedQueue \<Rightarrow> js_error + ('a \<times> 'a LinkedQueue)" where
  "linked_dequeue q =
     (case head q of
        Some h \<Rightarrow> Inr (fst (nodes q ! h), q\<lparr>head := snd (nodes q ! h)\<rparr>)
      | None \<Rightarrow> Inl (Error ''Attempted illegal operation: Empty queue cannot be popped''))"

fun follow :: "('a \<times> nat option) list \<Rightarrow> nat \<Rightarrow> nat option \<Rightarrow> 'a list" where
  "follow ns 0 p = []"
| "follow ns (Suc k) None = []"
| "follow ns (Suc k) (Some i) = fst (ns ! i) # follow ns k (snd (ns ! i))"

definition items :: "'a LinkedQueue \<Rightarrow> 'a list" where
  "items q = follow (nodes q) (length (nodes q)) (head q)"

text \<open>
  The worker keeps its mailbox as the list of the items of the chain, oldest first. The
  operations on that list are what the operations of the class do to \<open>items\<close>, as the
  lemmas on \<open>linked\<close> queues below show. \<open>dequeue\<close> on an empty queue throws.
\<close>

type_synonym 'a Queue = "'a list"

definition Queue_empty :: "'a Queue" where
  "Queue_empty = []"

definition enqueue :: "'a Queue \<Rightarrow> 'a \<Rightarrow> 'a Queue" where
  "enqueue q item = q @ [item]"

definition isEmpty :: "'a Queue \<Rightarrow> bool" where
  "isEmpty q = (q = [])"

definition peek :: "'a Queue \<Rightarrow> 'a option" where
  "peek q = (case q of [] \<Rightarrow> None | item # rest \<Rightarrow> Some item)"

definition dequeue :: "'a Queue \<Rightarrow> js_error + ('a \<times> 'a Queue)" where
  "dequeue q =
     (case q of
        [] \<Rightarrow> Inl (Error ''Attempted illegal operation: Empty queue cannot be popped'')
      | item # rest \<Rightarrow> Inr (item, rest))"

subsection \<open>RingBuffer (lines 60-83)\<close>

text \<open>
  \<open>new Array(size)\<close> is \<open>size\<close> empty slots; an empty slot reads as \<open>undefined\<close>
  (\<open>None\<close>). Reading past the end of a JavaScript array gives \<open>undefined\<close>, writing past
  the end extends the array.
\<close>

record 'a RingBuffer =
  size' :: nat
  arr :: "'a option list"
  count :: nat

definition new_RingBuffer :: "nat \<Rightarrow> 'a RingBuffer" where
  "new_RingBuffer n = \<lparr>size' = n, arr = replicate n None, count = 0\<rparr>"

definition array_read :: "'a option list \<Rightarrow> nat \<Rightarrow> 'a option" where
  "array_read xs i = (if i < length xs then xs ! i else None)"

definition array_write :: "'a option list \<Rightarrow> nat \<Rightarrow> 'a option \<Rightarrow> 'a option list" where
  "array_write xs i v =
     (if i < length xs then xs[i := v] else xs @ replicate (i - length xs) None @ [v])"

definition RingBuffer_get :: "'a RingBuffer \<Rightarrow> nat \<Rightarrow> 'a option" where
  "RingBuffer_get rb index = array_read (arr rb) index"

definition RingBuffer_set :: "'a RingBuffer \<Rightarrow> nat \<Rightarrow> 'a option \<Rightarrow> 'a RingBuffer" where
  "RingBuffer_set rb index v = rb\<lparr>arr := array_write (arr rb) index v\<rparr>"

definition RingBuffer_add :: "'a RingBuffer \<Rightarrow> 'a \<Rightarrow> 'a RingBuffer \<times> (nat \<times> 'a option)" where
  "RingBuffer_add rb v =
     (let i = count rb;
          prev = array_read (arr rb) i;
          rb1 = rb\<lparr>arr := array_write (arr rb) i (Some v)\<rparr>;
          rb2 = rb1\<lparr>count := count rb1 + 1\<rparr>;
          rb3 = rb2\<lparr>count := (if count rb2 \<ge> size' rb2 then 0 else count rb2)\<rparr>
      in (rb3, (i, prev)))"

text \<open>The table after a sequence of \<open>add\<close> calls.\<close>

definition adds :: "'a RingBuffer \<Rightarrow> 'a list \<Rightarrow> 'a RingBuffer" where
  "adds rb vs = foldl (\<lambda>r v. fst (RingBuffer_add r v)) rb vs"

subsection \<open>Behaviours\<close>

text \<open>
  A behaviour is user code: a function of one message that also reads the globals
  \<open>name\<close>, \<open>path\<close>, \<open>parent\<close>, \<open>children\<close> and \<open>sender\<close>. The synchronous part of one call
  is the statements it performs on the worker's bindings and effect functions, in order,
  and how it ends: it returns a value or throws. What a behaviour does after its
  synchronous part, when it returned a promise, arrives as events of its own
  (\<open>Continue\<close>, \<open>Settle\<close>). The loop classifies a returned value as
  a function, a falsy value, a thenable (\<open>next && next.then && next.catch\<close>) or anything
  else. An assignment to \<open>children\<close> stores a \<open>Map\<close> or, as \<open>None\<close>, a value that is not
  one; a change made to the \<open>Map\<close> object in place is the assignment of the changed map.
  An argument of an effect call is a plain value or a function with its source text.
\<close>

record scope =
  scope_name :: jsv
  scope_path :: jsv
  scope_parent :: jsv
  scope_children :: "jsmap option"
  scope_sender :: jsv

datatype arg = Val jsv | Fun string

datatype statement =
    AssignName jsv
  | AssignPath jsv
  | AssignParent jsv
  | AssignChildren "jsmap option"
  | Call string "arg list"
  | CallAsync string "arg list"

datatype "next" = Callable behavior | Falsy | Unsupported
and behavior = Behavior "scope \<Rightarrow> jsv \<Rightarrow> statement list \<times> outcome"
and outcome = Return "next" | ReturnPromise | Throw js_error

fun call :: "behavior \<Rightarrow> scope \<Rightarrow> jsv \<Rightarrow> statement list \<times> outcome" where
  "call (Behavior b) sc message = b sc message"

subsection \<open>The context (lines 85-95)\<close>

datatype outmsg =
    Effect string "arg list option" jsv "nat option"
  | Faulted jsv js_error

datatype trace_event = Invoke behavior scope jsv | Install behavior

type_synonym tell = "jsv \<times> jsv"

text \<open>
  \<open>posted\<close>: the messages given to \<open>self.postMessage\<close>, as action, args, sender and index
  before serialisation. \<open>ticks\<close>: the callbacks given to \<open>thread.nextTick\<close>, each with the
  action, args and index it closes over. \<open>closed\<close>: \<open>self.close()\<close> was called.
  \<open>deferreds\<close>: the Deferred objects in order of creation; a slot of the table holds the
  position of one. \<open>awaiting\<close>: the callbacks registered by \<open>next.then\<close> that have not run.
  \<open>trace\<close>: the history of calls of behaviours, each with the globals it could read and
  its message, and of assignments \<open>f = next\<close>; no function reads it.
\<close>

record worker =
  busy :: bool
  outstandingEffects :: "nat RingBuffer"
  mailbox :: "tell Queue"
  f :: "next"
  name :: jsv
  path :: jsv
  sender :: jsv
  parent :: jsv
  children :: "jsmap option"
  stopped :: bool
  closed :: bool
  posted :: "outmsg list"
  ticks :: "(string \<times> arg list \<times> nat) list"
  deferreds :: "Deferred list"
  awaiting :: nat
  trace :: "trace_event list"

definition initial :: worker where
  "initial =
     \<lparr>busy = False, outstandingEffects = new_RingBuffer 4048, mailbox = Queue_empty,
      f = Falsy, name = JUndefined, path = JUndefined, sender = JUndefined,
      parent = JUndefined, children = None, stopped = False, closed = False,
      posted = [], ticks = [], deferreds = [], awaiting = 0, trace = []\<rparr>"

subsection \<open>signalFault, dispatch, stop, dispatchAsync (lines 140-172)\<close>

text \<open>Thrown values are error objects, which \<open>serializeErr\<close> serialises without failing.\<close>

definition signalFault :: "worker \<Rightarrow> js_error \<Rightarrow> worker" where
  "signalFault s e = s\<lparr>posted := posted s @ [Faulted (path s) e], closed := True\<rparr>"

definition dispatch :: "worker \<Rightarrow> string \<Rightarrow> arg list option \<Rightarrow> worker" where
  "dispatch s action args = s\<lparr>posted := posted s @ [Effect action args (path s) None]\<rparr>"

definition stop :: "worker \<Rightarrow> worker" where
  "stop s = dispatch (s\<lparr>stopped := True\<rparr>) ''stop'' None"

text \<open>
  \<open>resolve\<close> and \<open>reject\<close> of the Deferred at a position. A slot only ever holds the
  position of a Deferred that was created, so the position is in range.
\<close>

definition resolve_at :: "Deferred list \<Rightarrow> nat \<Rightarrow> jsv \<Rightarrow> Deferred list" where
  "resolve_at h a v = (if a < length h then h[a := resolve (h ! a) v] else h)"

definition reject_at :: "Deferred list \<Rightarrow> nat \<Rightarrow> jsv \<Rightarrow> Deferred list" where
  "reject_at h a e = (if a < length h then h[a := reject (h ! a) e] else h)"

definition is_done :: "Deferred list \<Rightarrow> nat \<Rightarrow> bool" where
  "is_done h a = (a < length h \<and> done' (h ! a))"

definition stringify_functions :: "arg list \<Rightarrow> arg list" where
  "stringify_functions args = map (\<lambda>x. case x of Fun src \<Rightarrow> Val (JStr src) | Val v \<Rightarrow> Val v) args"

text \<open>
  Nothing inside the \<open>try\<close> of \<open>dispatchAsync\<close> throws, so its \<open>catch\<close> is never
  entered. The promise it returns goes to the caller, which is user code.
\<close>

definition dispatchAsync :: "worker \<Rightarrow> string \<Rightarrow> arg list \<Rightarrow> worker" where
  "dispatchAsync s action args =
     (let args' = stringify_functions args;
          deferred = length (deferreds s);
          s1 = s\<lparr>deferreds := deferreds s @ [new_Deferred]\<rparr>;
          (rb, index, prev) = RingBuffer_add (outstandingEffects s1) deferred;
          s2 = s1\<lparr>outstandingEffects := rb\<rparr>;
          s3 = (case prev of
                  None \<Rightarrow> s2
                | Some p \<Rightarrow>
                    if \<not> is_done (deferreds s2) p
                    then s2\<lparr>deferreds := reject_at (deferreds s2) p (JStr ''Promise timed out'')\<rparr>
                    else s2)
      in s3\<lparr>ticks := ticks s3 @ [(action, args', index)]\<rparr>)"

subsection \<open>processNext and handleMessage (lines 97-138)\<close>

definition exec :: "worker \<Rightarrow> statement \<Rightarrow> worker" where
  "exec s st =
     (case st of
        AssignName v \<Rightarrow> s\<lparr>name := v\<rparr>
      | AssignPath v \<Rightarrow> s\<lparr>path := v\<rparr>
      | AssignParent v \<Rightarrow> s\<lparr>parent := v\<rparr>
      | AssignChildren c \<Rightarrow> s\<lparr>children := c\<rparr>
      | Call action args \<Rightarrow> dispatch s action (Some args)
      | CallAsync action args \<Rightarrow> dispatchAsync s action args)"

definition scope_of :: "worker \<Rightarrow> scope" where
  "scope_of s =
     \<lparr>scope_name = name s, scope_path = path s, scope_parent = parent s,
      scope_children = children s, scope_sender = sender s\<rparr>"

text \<open>
  \<open>f.call({}, msg.payload.message)\<close> with \<open>f\<close> a function: the statements of its
  synchronous part run on the worker.
\<close>

definition invoke :: "worker \<Rightarrow> behavior \<Rightarrow> jsv \<Rightarrow> worker \<times> outcome" where
  "invoke s b message =
     (let (stmts, out) = call b (scope_of s) message
      in (foldl exec (s\<lparr>trace := trace s @ [Invoke b (scope_of s) message]\<rparr>) stmts, out))"

text \<open>Lines 124-127: the four bindings are assigned the values saved before the call.\<close>

definition restore :: "worker \<Rightarrow> string \<Rightarrow> jsv \<Rightarrow> jsv \<Rightarrow> jsmap \<Rightarrow> worker" where
  "restore s name' path' parent' children' =
     s\<lparr>name := JStr name', path := path', parent := parent', children := Some children'\<rparr>"

function processNext :: "worker \<Rightarrow> next \<Rightarrow> (js_error \<times> worker) + worker"
  and handleMessage :: "worker \<Rightarrow> tell \<Rightarrow> worker" where
  "processNext s nxt =
     (case nxt of
        Callable b \<Rightarrow>
          (let s1 = s\<lparr>f := Callable b, trace := trace s @ [Install b]\<rparr> in
           if \<not> isEmpty (mailbox s1) then
             (case dequeue (mailbox s1) of
                Inl e \<Rightarrow> Inl (e, s1)
              | Inr (nextMessage, rest) \<Rightarrow> Inr (handleMessage (s1\<lparr>mailbox := rest\<rparr>) nextMessage))
           else Inr (s1\<lparr>busy := False\<rparr>))
      | Falsy \<Rightarrow> Inr (stop s)
      | Unsupported \<Rightarrow> Inl (TypeError ''Unsupported Type'', s))"
| "handleMessage s msg =
     (let s0 = s\<lparr>busy := True\<rparr> in
      if f s0 = Falsy then s0
      else
        (case children s0 of
           None \<Rightarrow> signalFault s0 (TypeError ''children.entries: children is not a Map'')
         | Some children' \<Rightarrow>
             (let name' = to_string (name s0);
                  path' = path s0;
                  parent' = parent s0;
                  s1 = s0\<lparr>sender := fst msg\<rparr>
              in case f s1 of
                   Callable b \<Rightarrow>
                     (case invoke s1 b (snd msg) of
                        (s2, Throw e) \<Rightarrow> signalFault s2 e
                      | (s2, ReturnPromise) \<Rightarrow>
                          (let s3 = restore s2 name' path' parent' children'
                           in s3\<lparr>awaiting := awaiting s3 + 1\<rparr>)
                      | (s2, Return nxt) \<Rightarrow>
                          (case processNext (restore s2 name' path' parent' children') nxt of
                             Inl (e, s3) \<Rightarrow> signalFault s3 e
                           | Inr s3 \<Rightarrow> s3))
                 | _ \<Rightarrow> signalFault s1 (TypeError ''f.call is not a function''))))"
  by pat_completeness auto

termination
proof (relation "measure (\<lambda>x. case x of Inl (s, nxt) \<Rightarrow> 2 * length (mailbox s)
                                       | Inr (s, msg) \<Rightarrow> 2 * length (mailbox s) + 1)")
  show "wf (measure (\<lambda>x. case x of Inl (s, nxt) \<Rightarrow> 2 * length (mailbox s)
                                       | Inr (s, msg) \<Rightarrow> 2 * length (mailbox s) + 1))"
    by simp
next
  fix s :: worker and nxt :: "next" and b x and xa :: "tell \<times> tell list" and y xb
  assume "\<not> isEmpty (mailbox x)" "dequeue (mailbox x) = Inr xa" "(y, xb) = xa"
    "x = s\<lparr>f := Callable b, trace := trace s @ [Install b]\<rparr>"
  then show "(Inr (x\<lparr>mailbox := xb\<rparr>, y), Inl (s, nxt))
       \<in> measure (\<lambda>x. case x of Inl (s, nxt) \<Rightarrow> 2 * length (mailbox s)
                                       | Inr (s, msg) \<Rightarrow> 2 * length (mailbox s) + 1)"
    by (auto simp: dequeue_def isEmpty_def split: list.splits)
next
  have ex: "\<And>s st. mailbox (exec s st) = mailbox s"
    by (auto simp: exec_def dispatch_def dispatchAsync_def Let_def split: statement.splits prod.splits option.splits)
  have fo: "\<And>stmts s. mailbox (foldl exec s stmts) = mailbox s"
  proof -
    fix stmts show "\<And>s. mailbox (foldl exec s stmts) = mailbox s"
      by (induction stmts) (simp_all add: ex)
  qed
  fix s :: worker and msg :: tell and x x2 x2a xa xb xc xd x1 x2b y x3 ya
  assume "(x3, ya) = invoke xd x2a (snd msg)" "ya = Return y" "x = s\<lparr>busy := True\<rparr>" "xd = x\<lparr>sender := fst msg\<rparr>"
  then have "mailbox x3 = mailbox s"
    by (auto simp: invoke_def fo split: prod.splits)
  then show "(Inl (restore x3 xa xb xc x2, y), Inr (s, msg))
       \<in> measure (\<lambda>x. case x of Inl (s, nxt) \<Rightarrow> 2 * length (mailbox s)
                                       | Inr (s, msg) \<Rightarrow> 2 * length (mailbox s) + 1)"
    by (simp add: restore_def)
qed

declare processNext.simps [simp del] handleMessage.simps [simp del]

subsection \<open>onmessage (lines 197-261)\<close>

text \<open>
  An envelope is the parsed \<open>evt.data\<close>, with the payload fields its action uses.
  \<open>Initialize\<close> carries what \<open>eval(payload.f)()\<close> does (it throws, or yields the value
  assigned to \<open>f\<close>) and what \<open>bindEffects(payload.effects)\<close> does (it throws or not): the
  namespace it builds is the one the statements \<open>Call\<close> and \<open>CallAsync\<close> go through.
  \<open>payload.index\<close> is a slot index, as the worker sent it out. \<open>Unknown\<close> is an action
  that no \<open>case\<close> matches, \<open>Malformed\<close> a text that \<open>JSON.parse\<close> rejects.
  \<open>childSpawned\<close> has no \<open>break\<close> and runs on into the statements of \<open>childStopped\<close>.
\<close>

datatype envelope =
    Initialize "js_error + next" jsv jsv jsv "js_error option"
  | ChildSpawned jsv jsv
  | ChildStopped jsv
  | EffectApplied nat jsv
  | EffectFailed nat jsv
  | Tell jsv jsv
  | Stop
  | Unknown string
  | Malformed

definition onmessage :: "worker \<Rightarrow> envelope \<Rightarrow> worker" where
  "onmessage s env =
     (case env of
        Initialize factory name' path' parent' bind \<Rightarrow>
          (case factory of
             Inl e \<Rightarrow> signalFault s e
           | Inr fv \<Rightarrow>
               (let s1 = s\<lparr>f := fv, name := name', path := path', parent := parent',
                            children := Some []\<rparr>
                in case bind of Some e \<Rightarrow> signalFault s1 e | None \<Rightarrow> s1))
      | ChildSpawned name' child \<Rightarrow>
          (case children s of
             None \<Rightarrow> signalFault s (TypeError ''children.set: children is not a Map'')
           | Some m \<Rightarrow> s\<lparr>children := Some (map_delete (map_set m name' child) child)\<rparr>)
      | ChildStopped child \<Rightarrow>
          (case children s of
             None \<Rightarrow> signalFault s (TypeError ''children.delete: children is not a Map'')
           | Some m \<Rightarrow> s\<lparr>children := Some (map_delete m child)\<rparr>)
      | EffectApplied index v \<Rightarrow>
          (let effect = RingBuffer_get (outstandingEffects s) index;
               s1 = s\<lparr>outstandingEffects := RingBuffer_set (outstandingEffects s) index None\<rparr>
           in case effect of
                Some d \<Rightarrow> s1\<lparr>deferreds := resolve_at (deferreds s1) d v\<rparr>
              | None \<Rightarrow> s1)
      | EffectFailed index v \<Rightarrow>
          (let effect = RingBuffer_get (outstandingEffects s) index
           in case effect of
                Some d \<Rightarrow> s\<lparr>deferreds := reject_at (deferreds s) d v\<rparr>
              | None \<Rightarrow> s)
      | Tell sender' message \<Rightarrow>
          (if \<not> stopped s then
             (if \<not> busy s then handleMessage s (sender', message)
              else s\<lparr>mailbox := enqueue (mailbox s) (sender', message)\<rparr>)
           else s)
      | Stop \<Rightarrow> s\<lparr>stopped := True, closed := True\<rparr>
      | Unknown action \<Rightarrow> s
      | Malformed \<Rightarrow> signalFault s (Error ''JSON.parse: unexpected token''))"

subsection \<open>The events of the worker\<close>

text \<open>
  The platform runs one job at a time. \<open>Deliver\<close>: \<open>onmessage\<close> is called; a worker that
  called \<open>self.close()\<close> gets no further job. \<open>Settle\<close>: the promise a behaviour
  returned is fulfilled with a value and the callback \<open>(result) => processNext(result)\<close>
  runs; it runs outside every \<open>try\<close>, so what \<open>processNext\<close> throws there only rejects
  the promise that \<open>then\<close> returned, which has no handler. \<open>SettleRejected\<close>: that
  promise is rejected; \<open>then\<close> was given no rejection callback. \<open>Reaction\<close>: the reaction
  job of the Deferred at a position runs. \<open>NextTick\<close>: the oldest \<open>thread.nextTick\<close>
  callback runs and posts its request with the \<open>path\<close> of that moment. \<open>Continue\<close>:
  user code that an earlier call left behind runs its statements on the worker: the part
  of an \<open>async\<close> behaviour after an \<open>await\<close>, or a callback a behaviour or the factory
  registered. It runs after \<open>handleMessage\<close> has returned, so nothing restores what it
  assigns.
\<close>

datatype event =
    Deliver envelope
  | Settle "next"
  | SettleRejected
  | Reaction nat
  | NextTick
  | Continue "statement list"

definition step :: "worker \<Rightarrow> event \<Rightarrow> worker" where
  "step s ev =
     (if closed s then s
      else case ev of
        Deliver env \<Rightarrow> onmessage s env
      | Settle result \<Rightarrow>
          (if awaiting s = 0 then s
           else case processNext (s\<lparr>awaiting := awaiting s - 1\<rparr>) result of
                  Inl (e, s1) \<Rightarrow> s1
                | Inr s1 \<Rightarrow> s1)
      | SettleRejected \<Rightarrow> (if awaiting s = 0 then s else s\<lparr>awaiting := awaiting s - 1\<rparr>)
      | Reaction d \<Rightarrow>
          (if d < length (deferreds s)
           then s\<lparr>deferreds := (deferreds s)[d := reaction (deferreds s ! d)]\<rparr>
           else s)
      | NextTick \<Rightarrow>
          (case ticks s of
             [] \<Rightarrow> s
           | (action, args, index) # rest \<Rightarrow>
               s\<lparr>ticks := rest,
                 posted := posted s @ [Effect action (Some args) (path s) (Some index)]\<rparr>)
      | Continue stmts \<Rightarrow> foldl exec s stmts)"

definition run :: "worker \<Rightarrow> event list \<Rightarrow> worker" where
  "run s evs = foldl step s evs"

subsection \<open>Observing a run\<close>

text \<open>
  \<open>messages\<close>: the messages behaviours were called with, in the order of the calls.
  \<open>views\<close>: the globals those calls could read; \<open>identity_of\<close>: what a call could read
  in \<open>name\<close>, \<open>path\<close>, \<open>parent\<close> and \<open>children\<close>.
  \<open>sequential f0\<close>: starting with \<open>f0\<close> as the current behaviour, every call is a call
  of the current behaviour made while no call is in progress, and every assignment
  \<open>f = next\<close> ends the call in progress and makes \<open>next\<close> the current behaviour.
  \<open>told\<close>: the messages of the \<open>tell\<close> envelopes delivered while the worker is neither
  closed nor stopped, in the order of arrival.
\<close>

definition messages :: "trace_event list \<Rightarrow> jsv list" where
  "messages t = concat (map (\<lambda>e. case e of Invoke b sc m \<Rightarrow> [m] | Install b \<Rightarrow> []) t)"

definition views :: "trace_event list \<Rightarrow> scope list" where
  "views t = concat (map (\<lambda>e. case e of Invoke b sc m \<Rightarrow> [sc] | Install b \<Rightarrow> []) t)"

definition identity_of :: "scope \<Rightarrow> jsv \<times> jsv \<times> jsv \<times> jsmap option" where
  "identity_of sc = (scope_name sc, scope_path sc, scope_parent sc, scope_children sc)"







subsection \<open>Behaviours used as concrete inputs\<close>

text \<open>
  \<open>countdown n\<close> continues \<open>n\<close> times and then returns a falsy value. \<open>later\<close> returns
  a promise. \<open>unsupported\<close> returns a value that is neither a function nor falsy nor a
  thenable. \<open>throwing\<close> throws. \<open>requesting\<close> requests one asynchronous effect and
  returns a falsy value. \<open>meddling\<close> assigns all four identity bindings and continues
  with \<open>countdown 1\<close>.
\<close>

primrec countdown :: "nat \<Rightarrow> behavior" where
  "countdown 0 = Behavior (\<lambda>sc message. ([], Return Falsy))"
| "countdown (Suc n) = Behavior (\<lambda>sc message. ([], Return (Callable (countdown n))))"

definition later :: behavior where
  "later = Behavior (\<lambda>sc message. ([], ReturnPromise))"

definition unsupported :: behavior where
  "unsupported = Behavior (\<lambda>sc message. ([], Return Unsupported))"

definition throwing :: behavior where
  "throwing = Behavior (\<lambda>sc message. ([], Throw (Error ''boom'')))"

definition requesting :: behavior where
  "requesting = Behavior (\<lambda>sc message. ([CallAsync ''db.get'' []], Return Falsy))"

definition meddling :: behavior where
  "meddling =
     Behavior (\<lambda>sc message.
       ([AssignName (JStr ''x''), AssignPath JNull, AssignParent (JStr ''y''),
         AssignChildren None],
        Return (Callable (countdown 1))))"

text \<open>\<open>flood k s\<close>: \<open>k\<close> asynchronous effects are requested of \<open>s\<close>, none answered.\<close>

primrec flood :: "nat \<Rightarrow> worker \<Rightarrow> worker" where
  "flood 0 s = s"
| "flood (Suc k) s = dispatchAsync (flood k s) ''db.get'' []"

subsection \<open>Workers used as concrete inputs\<close>

text \<open>
  \<open>named\<close>: initialised with a string name and the behaviour \<open>meddling\<close>, with one
  child. \<open>queued\<close>: \<open>named\<close> as \<open>processNext\<close> passes it to \<open>handleMessage\<close> while one
  more message waits in the mailbox. \<open>numbered\<close>: initialised like \<open>named\<close>, with the
  number 5 as \<open>payload.name\<close>. \<open>overwritten\<close>: the behaviour returns a promise; before
  the promise is fulfilled its continuation assigns \<open>name\<close> and \<open>path\<close>; a second \<open>tell\<close>
  follows. \<open>requested\<close>: the initial worker with one request outstanding.
  \<open>halted\<close>: a worker with one child whose behaviour requested an effect and
  returned a falsy value. \<open>unreported\<close>: the behaviour returns a promise, which is
  fulfilled with a value that is neither a function nor falsy; a second \<open>tell\<close> follows.
  \<open>reported\<close>: the behaviour returns such a value directly. \<open>thrown\<close>: the behaviour
  throws.
\<close>

definition numbered :: worker where
  "numbered = run initial
     [Deliver (Initialize (Inr (Callable meddling)) (JNum ''5'') (JStr ''/a'') (JStr ''/'') None)]"

definition named :: worker where
  "named = run initial
     [Deliver (Initialize (Inr (Callable meddling)) (JStr ''a'') (JStr ''/a'') (JStr ''/'') None),
      Deliver (ChildSpawned (JStr ''b'') (JStr ''/a/b''))]"

definition queued :: worker where
  "queued = named\<lparr>busy := True, mailbox := [(JStr ''/'', JStr ''m2'')]\<rparr>"

definition requested :: worker where
  "requested = flood 1 initial"

definition overwritten :: worker where
  "overwritten = run initial
     [Deliver (Initialize (Inr (Callable later)) (JStr ''a'') (JStr ''/a'') (JStr ''/'') None),
      Deliver (Tell (JStr ''/'') (JStr ''m1'')),
      Continue [AssignName (JStr ''x''), AssignPath (JStr ''/evil'')],
      Settle (Callable (countdown 1)),
      Deliver (Tell (JStr ''/'') (JStr ''m2''))]"

definition halted :: worker where
  "halted = run initial
     [Deliver (Initialize (Inr (Callable requesting)) (JStr ''a'') (JStr ''/a'') (JStr ''/'') None),
      Deliver (ChildSpawned (JStr ''b'') (JStr ''/a/b'')),
      Deliver (Tell (JStr ''/'') (JStr ''m1''))]"

definition unreported :: worker where
  "unreported = run initial
     [Deliver (Initialize (Inr (Callable later)) (JStr ''a'') (JStr ''/a'') (JStr ''/'') None),
      Deliver (Tell (JStr ''/'') (JStr ''m1'')),
      Settle Unsupported,
      Deliver (Tell (JStr ''/'') (JStr ''m2''))]"

definition reported :: worker where
  "reported = run initial
     [Deliver (Initialize (Inr (Callable unsupported)) (JStr ''a'') (JStr ''/a'') (JStr ''/'') None),
      Deliver (Tell (JStr ''/'') (JStr ''m1'')),
      Deliver (Tell (JStr ''/'') (JStr ''m2''))]"

definition thrown :: worker where
  "thrown = run initial
     [Deliver (Initialize (Inr (Callable throwing)) (JStr ''a'') (JStr ''/a'') (JStr ''/'') None),
      Deliver (Tell (JStr ''/'') (JStr ''m1'')),
      Deliver (Tell (JStr ''/'') (JStr ''m2''))]"



definition unready :: worker where
  "unready = run initial
     [Deliver (Initialize (Inr Falsy) (JStr ''a'') (JStr ''/a'') (JStr ''/'') None)]"

definition afterwards :: "event list" where
  "afterwards =
     [Deliver (Tell (JStr ''/'') (JStr ''m2'')),
      Deliver (Initialize (Inr (Callable (countdown 2))) (JStr ''a'') (JStr ''/a'') (JStr ''/'') None),
      Settle (Callable (countdown 2)),
      Deliver (Tell (JStr ''/'') (JStr ''m3''))]"

subsection \<open>Invariants\<close>

text \<open>A table of \<open>n\<close> slots whose next slot to allocate is one of them.\<close>

definition ring_ok :: "nat \<Rightarrow> 'a RingBuffer \<Rightarrow> bool" where
  "ring_ok n rb = (size' rb = n \<and> length (arr rb) = n \<and> count rb < n)"


definition one_at_a_time :: "worker \<Rightarrow> bool" where
  "one_at_a_time r = (awaiting r \<le> 1 \<and> (awaiting r \<noteq> 0 \<longrightarrow> busy r))"

definition blocked :: "worker \<Rightarrow> worker \<Rightarrow> bool" where
  "blocked s r =
     (busy r \<and> awaiting r = 0 \<and> trace r = trace s \<and> (stopped r \<longrightarrow> closed r) \<and>
      prefix (mailbox s) (mailbox r))"

text \<open>
  \<open>chained ns h\<close>: from node \<open>h\<close> on, each node's \<open>next\<close> is the node created after it,
  and the last has none. \<open>linked\<close>: a queue with \<open>head\<close> set is chained from \<open>head\<close> and
  its \<open>tail\<close> is the last node created.
\<close>

definition chained :: "('a \<times> nat option) list \<Rightarrow> nat \<Rightarrow> bool" where
  "chained ns h =
     (h < length ns \<and>
      (\<forall>i. h \<le> i \<and> i < length ns \<longrightarrow>
         snd (ns ! i) = (if Suc i < length ns then Some (Suc i) else None)))"

definition linked :: "'a LinkedQueue \<Rightarrow> bool" where
  "linked q =
     (case head q of
        None \<Rightarrow> True
      | Some h \<Rightarrow> chained (nodes q) h \<and> tail q = Some (length (nodes q) - 1))"

section \<open>Properties\<close>

subsection \<open>The mailbox\<close>

lemma follow_chained:
  "chained ns h \<Longrightarrow> length ns - h \<le> k \<Longrightarrow> follow ns k (Some h) = map fst (drop h ns)"
proof (induction k arbitrary: h)
  case 0
  then show ?case by (simp add: chained_def)
next
  case (Suc k)
  from Suc.prems have h: "h < length ns" by (simp add: chained_def)
  have nx: "snd (ns ! h) = (if Suc h < length ns then Some (Suc h) else None)"
    using Suc.prems by (simp add: chained_def)
  have dr: "drop h ns = ns ! h # drop (Suc h) ns"
    using h by (simp add: Cons_nth_drop_Suc)
  show ?case
  proof (cases "Suc h < length ns")
    case True
    have "chained ns (Suc h)"
      using Suc.prems True by (simp add: chained_def)
    then have "follow ns k (Some (Suc h)) = map fst (drop (Suc h) ns)"
      using Suc.prems by (intro Suc.IH) simp_all
    then show ?thesis using True nx dr by simp
  next
    case False
    then have "drop (Suc h) ns = []" by simp
    then show ?thesis using False nx dr by (cases k) simp_all
  qed
qed

lemma items_linked:
  "linked q \<Longrightarrow> items q = (case head q of None \<Rightarrow> [] | Some h \<Rightarrow> map fst (drop h (nodes q)))"
  by (cases "head q") (auto simp: items_def linked_def follow_chained intro: follow.elims
        simp: follow.simps split: nat.splits)


lemma follow_None [simp]: "follow ns k None = []"
  by (cases k) simp_all

lemma linked_empty_refines: "linked linked_empty \<and> items linked_empty = Queue_empty"
  by (simp add: linked_def linked_empty_def items_def Queue_empty_def)

lemma linked_isEmpty_refines: "linked q \<Longrightarrow> linked_isEmpty q = isEmpty (items q)"
  by (cases "head q")
     (auto simp: items_linked linked_isEmpty_def isEmpty_def linked_def chained_def)

lemma linked_peek_refines: "linked q \<Longrightarrow> linked_peek q = peek (items q)"
  by (cases "head q")
     (auto simp: items_linked linked_peek_def peek_def linked_def chained_def
       Cons_nth_drop_Suc [symmetric] split: list.splits)

lemma linked_dequeue_refines:
  assumes "linked q"
  shows "case linked_dequeue q of
           Inl e \<Rightarrow> dequeue (items q) = Inl e
         | Inr (x, q') \<Rightarrow> linked q' \<and> dequeue (items q) = Inr (x, items q')"
proof (cases "head q")
  case None
  then show ?thesis
    using assms by (simp add: linked_dequeue_def items_linked dequeue_def)
next
  case (Some h)
  then have ch: "chained (nodes q) h" and tl: "tail q = Some (length (nodes q) - 1)"
    using assms by (simp_all add: linked_def)
  then have h: "h < length (nodes q)" by (simp add: chained_def)
  have nx: "snd (nodes q ! h) = (if Suc h < length (nodes q) then Some (Suc h) else None)"
    using ch by (simp add: chained_def)
  have dr: "drop h (nodes q) = nodes q ! h # drop (Suc h) (nodes q)"
    using h by (simp add: Cons_nth_drop_Suc)
  let ?q' = "q\<lparr>head := snd (nodes q ! h)\<rparr>"
  have l': "linked ?q'"
    using ch tl nx by (auto simp: linked_def chained_def)
  have "items ?q' = (case head ?q' of None \<Rightarrow> [] | Some h' \<Rightarrow> map fst (drop h' (nodes ?q')))"
    by (rule items_linked [OF l'])
  then have i': "items ?q' = map fst (drop (Suc h) (nodes q))"
    using nx by (cases "Suc h < length (nodes q)") simp_all
  show ?thesis
    using Some l' i' dr by (simp add: linked_dequeue_def items_linked [OF assms] dequeue_def)
qed

lemma linked_enqueue_refines:
  assumes "linked q"
  shows "\<exists>q'. linked_enqueue q x = Inr q' \<and> linked q' \<and> items q' = enqueue (items q) x"
proof (cases "head q")
  case None
  let ?q' = "q\<lparr>nodes := nodes q @ [(x, None)], head := Some (length (nodes q)),
      tail := Some (length (nodes q))\<rparr>"
  have e: "linked_enqueue q x = Inr ?q'"
    using None by (simp add: linked_enqueue_def linked_isEmpty_def Let_def)
  have l': "linked ?q'"
    by (auto simp: linked_def chained_def nth_append less_Suc_eq)
  have "items ?q' = [x]"
    by (simp add: items_linked [OF l'])
  then show ?thesis
    using e l' None assms by (simp add: items_linked [OF assms] enqueue_def)
next
  case (Some h)
  then have ch: "chained (nodes q) h" and tl: "tail q = Some (length (nodes q) - 1)"
    using assms by (simp_all add: linked_def)
  then have h: "h < length (nodes q)" by (simp add: chained_def)
  let ?n = "length (nodes q)"
  let ?ns = "(nodes q @ [(x, None)])[?n - 1 := (fst ((nodes q @ [(x, None)]) ! (?n - 1)), Some ?n)]"
  let ?q' = "q\<lparr>nodes := ?ns, tail := Some ?n\<rparr>"
  have e: "linked_enqueue q x = Inr ?q'"
    using Some tl by (simp add: linked_enqueue_def linked_isEmpty_def Let_def)
  have ns: "?ns = (nodes q)[?n - 1 := (fst (nodes q ! (?n - 1)), Some ?n)] @ [(x, None)]"
    using h by (simp add: list_update_append nth_append)
  have l': "linked ?q'"
    using Some ch h
    by (auto simp: linked_def chained_def ns nth_append nth_list_update less_Suc_eq)
  have mf: "map fst ?ns = map fst (nodes q) @ [x]"
    by (rule nth_equalityI) (auto simp: nth_append nth_list_update)
  have "items ?q' = (case head ?q' of None \<Rightarrow> [] | Some h' \<Rightarrow> map fst (drop h' (nodes ?q')))"
    by (rule items_linked [OF l'])
  then have "items ?q' = drop h (map fst ?ns)"
    using Some by (simp add: drop_map)
  also have "\<dots> = map fst (drop h (nodes q)) @ [x]"
    using h by (simp only: mf) (simp add: drop_map)
  finally show ?thesis
    using e l' Some by (simp add: items_linked [OF assms] enqueue_def)
qed

subsection \<open>The Outstanding-Effect Table\<close>

lemma ring_ok_new: "0 < n \<Longrightarrow> ring_ok n (new_RingBuffer n)"
  by (simp add: ring_ok_def new_RingBuffer_def)

lemma ring_ok_add: "ring_ok n rb \<Longrightarrow> ring_ok n (fst (RingBuffer_add rb v))"
  by (simp add: ring_ok_def RingBuffer_add_def Let_def array_write_def)

lemma ring_ok_adds: "ring_ok n rb \<Longrightarrow> ring_ok n (adds rb vs)"
  unfolding adds_def
  by (induction vs arbitrary: rb) (simp_all add: ring_ok_add)

lemma add_result:
  "ring_ok n rb \<Longrightarrow>
   RingBuffer_add rb v =
     (rb\<lparr>arr := (arr rb)[count rb := Some v], count := (count rb + 1) mod n\<rparr>,
      count rb, arr rb ! count rb)"
  by (auto simp: ring_ok_def RingBuffer_add_def Let_def array_write_def array_read_def mod_Suc)

text \<open>
  C8. The table of the worker is created with 4048 slots. For a table of any positive
  capacity, after any sequence of \<open>add\<close> calls the next \<open>add(handle)\<close> writes the handle
  into the slot at the current \<open>count\<close>, returns that index together with what the
  slot held before, and moves \<open>count\<close> on by one modulo the capacity; \<open>count\<close> is below
  the capacity before and after.
\<close>

theorem RingBuffer_add_wraps:
  assumes "0 < capacity"
  shows "outstandingEffects initial = new_RingBuffer 4048 \<and>
    (let rb = adds (new_RingBuffer capacity) hs;
         (rb', index, prev) = RingBuffer_add rb h
     in size' rb = capacity \<and> length (arr rb) = capacity \<and> count rb < capacity \<and>
        index = count rb \<and> prev = arr rb ! count rb \<and>
        arr rb' = (arr rb)[count rb := Some h] \<and> size' rb' = capacity \<and>
        count rb' = (count rb + 1) mod capacity \<and> count rb' < capacity)"
proof -
  have ok: "ring_ok capacity (adds (new_RingBuffer capacity) hs)"
    using assms by (simp add: ring_ok_new ring_ok_adds)
  have init: "outstandingEffects initial = new_RingBuffer 4048"
    by (simp add: initial_def)
  show ?thesis
    using ok assms by (simp add: init add_result [OF ok] Let_def ring_ok_def)
qed

theorem RingBuffer_add_wraps_witness:
  "(0::nat) < 3 \<and>
   RingBuffer_add (adds (new_RingBuffer 3) [10, 11, 12, 13::nat]) 14 =
     (\<lparr>size' = 3, arr = [Some 13, Some 14, Some 12], count = 2\<rparr>, 1, Some 11)"
proof -
  have rb: "adds (new_RingBuffer 3) [10, 11, 12, 13::nat] =
      \<lparr>size' = 3, arr = [Some 13, Some 11, Some 12], count = 1\<rparr>"
    by code_simp
  show ?thesis
    using RingBuffer_add_wraps [of 3 "[10, 11, 12, 13::nat]" 14]
    by (simp add: rb split: prod.splits)
qed

subsection \<open>Deferred\<close>

text \<open>
  C7. A new Deferred is pending with \<open>done\<close> unset. The first \<open>resolve(value)\<close> or
  \<open>reject(error)\<close> fixes the outcome; the reaction job that follows a settlement sets
  \<open>done\<close> on either path and leaves the outcome as it is; every later \<open>resolve\<close> or
  \<open>reject\<close>, before or after that job, returns the Deferred unchanged. The functions are
  total: no call throws.
\<close>

theorem Deferred_settles_once:
  "promise (resolve new_Deferred v) = Fulfilled v \<and>
   promise (reject new_Deferred e) = Rejected e \<and>
   \<not> done' new_Deferred \<and> reaction new_Deferred = new_Deferred \<and>
   \<not> done' (resolve new_Deferred v) \<and> \<not> done' (reject new_Deferred e) \<and>
   done' (reaction (resolve new_Deferred v)) \<and> done' (reaction (reject new_Deferred e)) \<and>
   promise (reaction d) = promise d \<and>
   resolve (resolve d v) w = resolve d v \<and> reject (resolve d v) e = resolve d v \<and>
   resolve (reject d e) v = reject d e \<and> reject (reject d e) e' = reject d e \<and>
   resolve (reaction (resolve d v)) w = reaction (resolve d v) \<and>
   reject (reaction (resolve d v)) e = reaction (resolve d v) \<and>
   resolve (reaction (reject d e)) v = reaction (reject d e) \<and>
   reject (reaction (reject d e)) e' = reaction (reject d e)"
  by (cases "promise d") (simp_all add: resolve_def reject_def reaction_def new_Deferred_def)

lemma array_write_None_idem:
  "array_write (array_write xs i None) i None = array_write xs i None"
  by (simp add: array_write_def list_update_append)

lemma array_read_write_same: "array_read (array_write xs i v) i = v"
  by (simp add: array_read_def array_write_def nth_append)

subsection \<open>Asynchronous effects\<close>

lemma dispatchAsync_free_slot:
  assumes "array_read (arr (outstandingEffects s)) (count (outstandingEffects s)) = None"
  shows "dispatchAsync s action args =
     s\<lparr>deferreds := deferreds s @ [new_Deferred],
       outstandingEffects := (outstandingEffects s)
         \<lparr>arr := array_write (arr (outstandingEffects s)) (count (outstandingEffects s))
                  (Some (length (deferreds s))),
          count := (if Suc (count (outstandingEffects s)) \<ge> size' (outstandingEffects s) then 0
                    else Suc (count (outstandingEffects s)))\<rparr>,
       ticks := ticks s @ [(action, stringify_functions args, count (outstandingEffects s))]\<rparr>"
  using assms by (simp add: dispatchAsync_def RingBuffer_add_def Let_def)

lemma flood_state:
  "k \<le> n \<Longrightarrow> 0 < n \<Longrightarrow> deferreds s = [] \<Longrightarrow> outstandingEffects s = new_RingBuffer n \<Longrightarrow>
   deferreds (flood k s) = replicate k new_Deferred \<and>
   arr (outstandingEffects (flood k s)) = map Some [0..<k] @ replicate (n - k) None \<and>
   count (outstandingEffects (flood k s)) = (if k = n then 0 else k) \<and>
   size' (outstandingEffects (flood k s)) = n"
proof (induction k)
  case 0
  then show ?case by (simp add: new_RingBuffer_def)
next
  case (Suc k)
  then have k: "k < n" by simp
  let ?t = "flood k s"
  have ih: "deferreds ?t = replicate k new_Deferred"
    "arr (outstandingEffects ?t) = map Some [0..<k] @ replicate (n - k) None"
    "count (outstandingEffects ?t) = k" "size' (outstandingEffects ?t) = n"
    using Suc k by simp_all
  have rd: "array_read (arr (outstandingEffects ?t)) k = None"
    using k by (simp add: ih array_read_def nth_append)
  have wr: "array_write (arr (outstandingEffects ?t)) k (Some k) =
      map Some [0..<Suc k] @ replicate (n - Suc k) None"
    using k by (intro nth_equalityI) (auto simp: ih array_write_def nth_append nth_list_update less_Suc_eq)
  have rd': "array_read (arr (outstandingEffects ?t)) (count (outstandingEffects ?t)) = None"
    using rd by (simp add: ih)
  show ?case
    using k wr by (auto simp: dispatchAsync_free_slot [OF rd'] ih replicate_append_same)
qed

lemma flood_full:
  "deferreds (flood 4048 initial) = replicate 4048 new_Deferred"
  "arr (outstandingEffects (flood 4048 initial)) = map Some [0..<4048]"
  "count (outstandingEffects (flood 4048 initial)) = 0"
  using flood_state [of 4048 4048 initial] by (simp_all add: initial_def)

text \<open>
  C4. When \<open>dispatchAsync\<close> allocates the slot at \<open>count\<close> and that slot holds a Deferred
  that is still pending with \<open>done\<close> unset, the call rejects that Deferred with
  \<open>Promise timed out\<close>. The new Deferred sits in the slot in its place, pending and with
  \<open>done\<close> unset; no other Deferred changes. A later \<open>reject\<close> or \<open>resolve\<close> of the
  displaced Deferred changes nothing, so this rejection is its only one. The request for
  the new Deferred is only scheduled with \<open>thread.nextTick\<close>: nothing is posted yet when
  the rejection has happened.
\<close>

theorem dispatchAsync_rejects_displaced:
  assumes "RingBuffer_get (outstandingEffects s) (count (outstandingEffects s)) = Some p"
    and "p < length (deferreds s)"
    and "promise (deferreds s ! p) = Pending"
    and "\<not> done' (deferreds s ! p)"
  shows "let s' = dispatchAsync s action args;
             i = count (outstandingEffects s);
             d = length (deferreds s)
         in deferreds s' ! p = (deferreds s ! p)\<lparr>promise := Rejected (JStr ''Promise timed out'')\<rparr> \<and>
            RingBuffer_get (outstandingEffects s') i = Some d \<and> d \<noteq> p \<and>
            deferreds s' ! d = new_Deferred \<and>
            length (deferreds s') = Suc (length (deferreds s)) \<and>
            (\<forall>q < length (deferreds s). q \<noteq> p \<longrightarrow> deferreds s' ! q = deferreds s ! q) \<and>
            reject_at (deferreds s') p e = deferreds s' \<and>
            resolve_at (deferreds s') p v = deferreds s' \<and>
            ticks s' = ticks s @ [(action, stringify_functions args, i)] \<and>
            posted s' = posted s \<and> closed s' = closed s"
  using assms
  by (auto simp: dispatchAsync_def Let_def RingBuffer_add_def RingBuffer_get_def
      array_read_write_same is_done_def reject_at_def resolve_at_def reject_def resolve_def
      nth_append split: prod.splits option.splits)

text \<open>
  In the worker's own table: after 4048 unanswered requests the next request takes slot
  0 again and rejects the Deferred of the first.
\<close>

theorem dispatchAsync_rejects_displaced_witness:
  "RingBuffer_get (outstandingEffects (flood 4048 initial))
     (count (outstandingEffects (flood 4048 initial))) = Some 0 \<and>
   0 < length (deferreds (flood 4048 initial)) \<and>
   promise (deferreds (flood 4048 initial) ! 0) = Pending \<and>
   \<not> done' (deferreds (flood 4048 initial) ! 0) \<and>
   deferreds (dispatchAsync (flood 4048 initial) ''db.get'' []) ! 0 =
     \<lparr>promise = Rejected (JStr ''Promise timed out''), done' = False\<rparr> \<and>
   RingBuffer_get (outstandingEffects (dispatchAsync (flood 4048 initial) ''db.get'' [])) 0 =
     Some 4048 \<and>
   deferreds (dispatchAsync (flood 4048 initial) ''db.get'' []) ! 4048 = new_Deferred"
proof -
  have h1: "RingBuffer_get (outstandingEffects (flood 4048 initial))
     (count (outstandingEffects (flood 4048 initial))) = Some 0"
    by (simp add: flood_full RingBuffer_get_def array_read_def)
  have h2: "0 < length (deferreds (flood 4048 initial))"
    by (simp add: flood_full)
  have h3: "promise (deferreds (flood 4048 initial) ! 0) = Pending"
    and h4: "\<not> done' (deferreds (flood 4048 initial) ! 0)"
    by (simp_all add: flood_full new_Deferred_def)
  show ?thesis
    using dispatchAsync_rejects_displaced [OF h1 h2 h3 h4, of "''db.get''" "[]"] h1 h2 h3 h4
    by (simp add: Let_def flood_full new_Deferred_def)
qed

text \<open>
  C6. \<open>effectApplied\<close> leaves the slot at \<open>payload.index\<close> empty. When the slot held a
  Deferred, that Deferred is resolved with \<open>payload.value\<close>: if it was pending its promise
  is now fulfilled with that value, if it was settled it keeps its outcome; its \<open>done\<close>
  and every other Deferred are as before. When the slot was empty no Deferred changes.
  Nothing else changes, nothing is posted and the worker is not closed by it. On the
  resulting worker a further \<open>effectApplied\<close> or \<open>effectFailed\<close> for the same index
  changes nothing.
\<close>

theorem effectApplied_clears_slot:
  "(let s' = onmessage s (EffectApplied index v)
    in RingBuffer_get (outstandingEffects s') index = None \<and>
       s' = s\<lparr>outstandingEffects := RingBuffer_set (outstandingEffects s) index None,
              deferreds := (case RingBuffer_get (outstandingEffects s) index of
                              Some d \<Rightarrow> resolve_at (deferreds s) d v
                            | None \<Rightarrow> deferreds s)\<rparr> \<and>
       closed s' = closed s \<and> posted s' = posted s \<and>
       length (deferreds s') = length (deferreds s) \<and>
       (\<forall>d. RingBuffer_get (outstandingEffects s) index = Some d \<and> d < length (deferreds s) \<longrightarrow>
          promise (deferreds s' ! d) =
            (if promise (deferreds s ! d) = Pending then Fulfilled v
             else promise (deferreds s ! d)) \<and>
          done' (deferreds s' ! d) = done' (deferreds s ! d) \<and>
          (\<forall>q < length (deferreds s). q \<noteq> d \<longrightarrow> deferreds s' ! q = deferreds s ! q)) \<and>
       (RingBuffer_get (outstandingEffects s) index = None \<longrightarrow> deferreds s' = deferreds s) \<and>
       onmessage s' (EffectApplied index v') = s' \<and>
       onmessage s' (EffectFailed index v') = s')"
  by (auto simp: onmessage_def Let_def RingBuffer_get_def RingBuffer_set_def
      array_read_write_same array_write_None_idem resolve_at_def resolve_def
      split: option.splits)

lemma requested_facts:
  "deferreds requested = [new_Deferred]"
  "RingBuffer_get (outstandingEffects requested) 0 = Some 0"
  using flood_state [of 1 4048 initial]
  by (simp_all add: requested_def initial_def RingBuffer_get_def array_read_def)

text \<open>
  One request is outstanding in slot 0; \<open>effectApplied\<close> with index 0 and value 42
  fulfils its promise with 42 and empties the slot, and a second \<open>effectApplied\<close> for
  index 0 changes nothing.
\<close>

theorem effectApplied_clears_slot_witness:
  "RingBuffer_get (outstandingEffects requested) 0 = Some 0 \<and>
   0 < length (deferreds requested) \<and>
   promise (deferreds requested ! 0) = Pending \<and>
   promise (deferreds (onmessage requested (EffectApplied 0 (JNum ''42''))) ! 0) =
     Fulfilled (JNum ''42'') \<and>
   RingBuffer_get (outstandingEffects (onmessage requested (EffectApplied 0 (JNum ''42'')))) 0 =
     None \<and>
   onmessage (onmessage requested (EffectApplied 0 (JNum ''42''))) (EffectApplied 0 (JNum ''7'')) =
     onmessage requested (EffectApplied 0 (JNum ''42''))"
proof -
  have h1: "RingBuffer_get (outstandingEffects requested) 0 = Some 0"
    and h2: "0 < length (deferreds requested)"
    and h3: "promise (deferreds requested ! 0) = Pending"
    by (simp_all add: requested_facts new_Deferred_def)
  note inst = effectApplied_clears_slot [of requested 0 "JNum ''42''" "JNum ''7''", unfolded Let_def]
  from inst h1 h2 have "promise (deferreds (onmessage requested (EffectApplied 0 (JNum ''42''))) ! 0) =
      (if promise (deferreds requested ! 0) = Pending then Fulfilled (JNum ''42'')
       else promise (deferreds requested ! 0))"
    by blast
  then have h4: "promise (deferreds (onmessage requested (EffectApplied 0 (JNum ''42''))) ! 0) =
      Fulfilled (JNum ''42'')"
    using h3 by simp
  from inst have h5: "RingBuffer_get
      (outstandingEffects (onmessage requested (EffectApplied 0 (JNum ''42'')))) 0 = None"
    and h6: "onmessage (onmessage requested (EffectApplied 0 (JNum ''42'')))
        (EffectApplied 0 (JNum ''7'')) = onmessage requested (EffectApplied 0 (JNum ''42''))"
    by blast+
  show ?thesis
    using h1 h2 h3 h4 h5 h6 by blast
qed

subsection \<open>Child bookkeeping\<close>

text \<open>
  C5 fails on the code: the \<open>childSpawned\<close> case has no \<open>break\<close>, so
  \<open>children.delete(payload.child)\<close> runs after \<open>children.set(payload.name,
  payload.child)\<close>. A spawn whose \<open>child\<close> equals its \<open>name\<close> leaves no entry; a spawn
  whose \<open>child\<close> equals the key of an existing entry removes that entry. A spawn whose
  \<open>child\<close> is no key of the map only adds its entry; a \<open>child\<close> that is an object is
  never one.
\<close>

theorem childSpawned_falls_through:
  "children (run initial
      [Deliver (Initialize (Inr (Callable (countdown 1))) (JStr ''root'') (JStr ''/'') JNull None),
       Deliver (ChildSpawned (JStr ''a'') (JStr ''a''))]) = Some [] \<and>
   children (run initial
      [Deliver (Initialize (Inr (Callable (countdown 1))) (JStr ''root'') (JStr ''/'') JNull None),
       Deliver (ChildSpawned (JStr ''a'') (JStr ''/a'')),
       Deliver (ChildSpawned (JStr ''b'') (JStr ''a''))]) = Some [(JStr ''b'', JStr ''a'')] \<and>
   children (run initial
      [Deliver (Initialize (Inr (Callable (countdown 1))) (JStr ''root'') (JStr ''/'') JNull None),
       Deliver (ChildSpawned (JStr ''a'') (JStr ''/a'')),
       Deliver (ChildSpawned (JStr ''b'') (JStr ''/b''))]) =
     Some [(JStr ''a'', JStr ''/a''), (JStr ''b'', JStr ''/b'')] \<and>
   children (run initial
      [Deliver (Initialize (Inr (Callable (countdown 1))) (JStr ''root'') (JStr ''/'') JNull None),
       Deliver (ChildSpawned (JObj [(''id'', JNum ''1'')]) (JObj [(''id'', JNum ''1'')]))]) =
     Some [(JObj [(''id'', JNum ''1'')], JObj [(''id'', JNum ''1'')])]"
  by (simp add: run_def step_def initial_def onmessage_def same_key_def)

subsection \<open>The stopped flag\<close>

text \<open>
  C10. A falsy \<open>next\<close> makes \<open>processNext\<close> call \<open>stop\<close>, which sets \<open>stopped\<close> and posts
  \<open>stop\<close> and does not close the worker. With \<open>stopped\<close> set a \<open>tell\<close> envelope changes
  nothing, while \<open>childSpawned\<close>, \<open>childStopped\<close>, \<open>effectApplied\<close> and \<open>effectFailed\<close> do
  to the stopped worker what they do to the same worker with the flag clear: the two
  child envelopes change \<open>children\<close> as their statements say, \<open>effectApplied\<close> fulfils and
  \<open>effectFailed\<close> rejects a pending Deferred in the slot.
\<close>

theorem stopped_gates_only_tell:
  "processNext s Falsy = Inr (stop s) \<and>
   stop s = s\<lparr>stopped := True, posted := posted s @ [Effect ''stop'' None (path s) None]\<rparr> \<and>
   closed (stop s) = closed s \<and>
   (let t = s\<lparr>stopped := True\<rparr>; u = s\<lparr>stopped := False\<rparr>
    in onmessage t (Tell a m) = t \<and>
       onmessage t (ChildSpawned n c) = (onmessage u (ChildSpawned n c))\<lparr>stopped := True\<rparr> \<and>
       onmessage t (ChildStopped c) = (onmessage u (ChildStopped c))\<lparr>stopped := True\<rparr> \<and>
       onmessage t (EffectApplied i v) = (onmessage u (EffectApplied i v))\<lparr>stopped := True\<rparr> \<and>
       onmessage t (EffectFailed i v) = (onmessage u (EffectFailed i v))\<lparr>stopped := True\<rparr> \<and>
       (\<forall>cs. children s = Some cs \<longrightarrow>
          children (onmessage t (ChildSpawned n c)) = Some (map_delete (map_set cs n c) c) \<and>
          children (onmessage t (ChildStopped c)) = Some (map_delete cs c)) \<and>
       (\<forall>d. RingBuffer_get (outstandingEffects s) i = Some d \<and> d < length (deferreds s) \<and>
            promise (deferreds s ! d) = Pending \<longrightarrow>
          promise (deferreds (onmessage t (EffectApplied i v)) ! d) = Fulfilled v \<and>
          RingBuffer_get (outstandingEffects (onmessage t (EffectApplied i v))) i = None \<and>
          promise (deferreds (onmessage t (EffectFailed i v)) ! d) = Rejected v))"
  by (auto simp: processNext.simps stop_def dispatch_def onmessage_def signalFault_def Let_def
      RingBuffer_get_def RingBuffer_set_def array_read_write_same
      resolve_at_def resolve_def reject_at_def reject_def split: option.splits)

lemma halted_facts:
  "stopped halted" "\<not> closed halted"
  "children halted = Some [(JStr ''b'', JStr ''/a/b'')]"
  "RingBuffer_get (outstandingEffects halted) 0 = Some 0"
  "deferreds halted = [new_Deferred]"
  by (simp_all add: halted_def run_def step_def initial_def onmessage_def same_key_def
      handleMessage.simps processNext.simps invoke_def requesting_def exec_def dispatchAsync_def
      restore_def stop_def dispatch_def stringify_functions_def is_done_def Let_def
      RingBuffer_add_def RingBuffer_get_def new_RingBuffer_def array_read_def array_write_def
      isEmpty_def Queue_empty_def)

text \<open>
  A worker that stopped itself with one child and one request outstanding is not closed,
  and the four envelopes still act on it.
\<close>

theorem stopped_gates_only_tell_witness:
  "stopped halted \<and> \<not> closed halted \<and>
   children halted = Some [(JStr ''b'', JStr ''/a/b'')] \<and>
   RingBuffer_get (outstandingEffects halted) 0 = Some 0 \<and>
   0 < length (deferreds halted) \<and> promise (deferreds halted ! 0) = Pending \<and>
   onmessage halted (Tell (JStr ''/'') (JStr ''m2'')) = halted \<and>
   children (onmessage halted (ChildStopped (JStr ''b''))) = Some [] \<and>
   children (onmessage halted (ChildSpawned (JStr ''c'') (JStr ''/a/c''))) =
     Some [(JStr ''b'', JStr ''/a/b''), (JStr ''c'', JStr ''/a/c'')] \<and>
   promise (deferreds (onmessage halted (EffectApplied 0 (JNum ''42''))) ! 0) =
     Fulfilled (JNum ''42'') \<and>
   promise (deferreds (onmessage halted (EffectFailed 0 (JStr ''no''))) ! 0) =
     Rejected (JStr ''no'')"
proof -
  note h = halted_facts
  have len: "0 < length (deferreds halted)" and pend: "promise (deferreds halted ! 0) = Pending"
    by (simp_all add: h new_Deferred_def)
  have t: "halted\<lparr>stopped := True\<rparr> = halted"
    using h(1) by (cases halted) simp
  note i1 = stopped_gates_only_tell [of halted "JStr ''/''" "JStr ''m2''" "JStr ''c''"
      "JStr ''/a/c''" 0 "JNum ''42''", unfolded Let_def t]
  note i2 = stopped_gates_only_tell [of halted "JStr ''/''" "JStr ''m2''" "JStr ''c''"
      "JStr ''b''" 0 "JStr ''no''", unfolded Let_def t]
  from i1 have a1: "onmessage halted (Tell (JStr ''/'') (JStr ''m2'')) = halted"
    by blast
  from i1 h(3) have "children (onmessage halted (ChildSpawned (JStr ''c'') (JStr ''/a/c''))) =
      Some (map_delete (map_set [(JStr ''b'', JStr ''/a/b'')] (JStr ''c'') (JStr ''/a/c''))
        (JStr ''/a/c''))"
    by blast
  then have a2: "children (onmessage halted (ChildSpawned (JStr ''c'') (JStr ''/a/c''))) =
      Some [(JStr ''b'', JStr ''/a/b''), (JStr ''c'', JStr ''/a/c'')]"
    by (simp add: same_key_def)
  from i2 h(3) have "children (onmessage halted (ChildStopped (JStr ''b''))) =
      Some (map_delete [(JStr ''b'', JStr ''/a/b'')] (JStr ''b''))"
    by blast
  then have a3: "children (onmessage halted (ChildStopped (JStr ''b''))) = Some []"
    by (simp add: same_key_def)
  from i1 h(4) len pend have a4:
    "promise (deferreds (onmessage halted (EffectApplied 0 (JNum ''42''))) ! 0) =
      Fulfilled (JNum ''42'')"
    by blast
  from i2 h(4) len pend have a5:
    "promise (deferreds (onmessage halted (EffectFailed 0 (JStr ''no''))) ! 0) =
      Rejected (JStr ''no'')"
    by blast
  show ?thesis
    using h(1-4) len pend a1 a2 a3 a4 a5 by blast
qed

subsection \<open>The loop\<close>

lemma exec_frame [simp]:
  "busy (exec s st) = busy s" "mailbox (exec s st) = mailbox s" "f (exec s st) = f s"
  "stopped (exec s st) = stopped s" "closed (exec s st) = closed s"
  "awaiting (exec s st) = awaiting s" "trace (exec s st) = trace s"
  "sender (exec s st) = sender s"
  by (simp_all add: exec_def dispatch_def dispatchAsync_def Let_def
      split: statement.splits prod.splits option.splits)

lemma foldl_exec_frame [simp]:
  "busy (foldl exec s sts) = busy s" "mailbox (foldl exec s sts) = mailbox s"
  "f (foldl exec s sts) = f s" "stopped (foldl exec s sts) = stopped s"
  "closed (foldl exec s sts) = closed s" "awaiting (foldl exec s sts) = awaiting s"
  "trace (foldl exec s sts) = trace s" "sender (foldl exec s sts) = sender s"
  by (induction sts arbitrary: s) simp_all

lemma invoke_frame:
  assumes "invoke s b m = (s2, out)"
  shows "busy s2 = busy s" "mailbox s2 = mailbox s" "f s2 = f s" "stopped s2 = stopped s"
    "closed s2 = closed s" "awaiting s2 = awaiting s" "trace s2 = trace s @ [Invoke b (scope_of s) m]"
    "sender s2 = sender s"
  using assms by (auto simp: invoke_def split: prod.splits)

lemma handleMessage_Falsy: "f s = Falsy \<Longrightarrow> handleMessage s msg = s\<lparr>busy := True\<rparr>"
  by (simp add: handleMessage.simps)

lemma handleMessage_no_Map:
  "f s \<noteq> Falsy \<Longrightarrow> children s = None \<Longrightarrow>
   handleMessage s msg =
     signalFault (s\<lparr>busy := True\<rparr>) (TypeError ''children.entries: children is not a Map'')"
  by (simp add: handleMessage.simps)

lemma handleMessage_Unsupported:
  "f s = Unsupported \<Longrightarrow> children s = Some c \<Longrightarrow>
   handleMessage s msg =
     signalFault (s\<lparr>busy := True, sender := fst msg\<rparr>) (TypeError ''f.call is not a function'')"
  by (simp add: handleMessage.simps)

lemma handleMessage_Callable:
  "f s = Callable b \<Longrightarrow> children s = Some c \<Longrightarrow>
   invoke (s\<lparr>busy := True, sender := fst msg\<rparr>) b (snd msg) = (s2, out) \<Longrightarrow>
   handleMessage s msg =
     (case out of
        Return nxt \<Rightarrow>
          (case processNext (restore s2 (to_string (name s)) (path s) (parent s) c) nxt of
             Inl (e, s3) \<Rightarrow> signalFault s3 e
           | Inr s3 \<Rightarrow> s3)
      | ReturnPromise \<Rightarrow>
          (restore s2 (to_string (name s)) (path s) (parent s) c)\<lparr>awaiting := awaiting s + 1\<rparr>
      | Throw e \<Rightarrow> signalFault s2 e)"
  by (auto simp: handleMessage.simps Let_def restore_def dest: invoke_frame(6)
      split: outcome.splits)

lemma processNext_Callable:
  "processNext s (Callable b) =
     (case mailbox s of
        [] \<Rightarrow> Inr (s\<lparr>f := Callable b, trace := trace s @ [Install b], busy := False\<rparr>)
      | msg # rest \<Rightarrow>
          Inr (handleMessage (s\<lparr>f := Callable b, trace := trace s @ [Install b], mailbox := rest\<rparr>) msg))"
  by (simp add: processNext.simps Let_def isEmpty_def dequeue_def split: list.splits)

lemma processNext_Falsy: "processNext s Falsy = Inr (stop s)"
  by (simp add: processNext.simps)

lemma processNext_Unsupported:
  "processNext s Unsupported = Inl (TypeError ''Unsupported Type'', s)"
  by (simp add: processNext.simps)

lemma messages_simps [simp]:
  "messages [] = []"
  "messages (t @ u) = messages t @ messages u"
  "messages (Invoke b sc m # t) = m # messages t"
  "messages (Install b # t) = messages t"
  by (simp_all add: messages_def)

lemma views_simps [simp]:
  "views [] = []"
  "views (t @ u) = views t @ views u"
  "views (Invoke b sc m # t) = sc # views t"
  "views (Install b # t) = views t"
  by (simp_all add: views_def)

lemma identity_of_scope_of [simp]:
  "identity_of (scope_of s) = (name s, path s, parent s, children s)"
  by (simp add: identity_of_def scope_of_def)

lemma in_set_take1_tl: "x \<in> set xs \<Longrightarrow> x \<in> set (take 1 xs) \<or> x \<in> set (tl xs)"
  by (cases xs) auto

lemma bindings_loop:
  "(\<not> closed s \<longrightarrow> name s = JStr n \<longrightarrow> children s = Some c \<longrightarrow>
     (case processNext s nxt of
        Inl (e, r) \<Rightarrow> r = s
      | Inr r \<Rightarrow>
          (\<exists>new. trace r = trace s @ new \<and>
             (\<forall>sc \<in> set (views new). identity_of sc = (JStr n, path s, parent s, Some c))) \<and>
          (closed r \<or>
           (name r = JStr n \<and> path r = path s \<and> parent r = parent s \<and> children r = Some c))))"
  "(\<not> closed s' \<longrightarrow> f s' \<noteq> Falsy \<longrightarrow> children s' = Some c' \<longrightarrow>
     (let r = handleMessage s' msg
      in (\<exists>new. trace r = trace s' @ new \<and>
            (\<forall>sc \<in> set (take 1 (views new)).
               identity_of sc = (name s', path s', parent s', Some c')) \<and>
            (\<forall>sc \<in> set (tl (views new)).
               identity_of sc = (JStr (to_string (name s')), path s', parent s', Some c'))) \<and>
         (closed r \<or>
          (name r = JStr (to_string (name s')) \<and> path r = path s' \<and> parent r = parent s' \<and>
           children r = Some c'))))"
proof (induction s nxt and s' msg arbitrary: n c and c' rule: processNext_handleMessage.induct)
  case (1 s nxt)
  show ?case
  proof (cases nxt)
    case (Callable b)
    show ?thesis
    proof (cases "mailbox s")
      case Nil
      then show ?thesis by (simp add: Callable processNext_Callable)
    next
      case (Cons msg rest)
      let ?x = "s\<lparr>f := Callable b, trace := trace s @ [Install b], mailbox := rest\<rparr>"
      have ih: "\<not> closed ?x \<longrightarrow> f ?x \<noteq> Falsy \<longrightarrow> children ?x = Some c \<longrightarrow>
         (let r = handleMessage ?x msg
          in (\<exists>new. trace r = trace ?x @ new \<and>
                (\<forall>sc \<in> set (take 1 (views new)).
                   identity_of sc = (name ?x, path ?x, parent ?x, Some c)) \<and>
                (\<forall>sc \<in> set (tl (views new)).
                   identity_of sc = (JStr (to_string (name ?x)), path ?x, parent ?x, Some c))) \<and>
             (closed r \<or>
              (name r = JStr (to_string (name ?x)) \<and> path r = path ?x \<and> parent r = parent ?x \<and>
               children r = Some c)))"
        using "1.IH" [of b "s\<lparr>f := Callable b, trace := trace s @ [Install b]\<rparr>" "(msg, rest)"
            msg rest c]
        by (simp add: Callable Cons isEmpty_def dequeue_def)
      show ?thesis
      proof (intro impI)
        assume pre: "\<not> closed s" "name s = JStr n" "children s = Some c"
        let ?r = "handleMessage ?x msg"
        from ih pre obtain new where
          tr: "trace ?r = (trace s @ [Install b]) @ new"
          and first: "\<forall>sc \<in> set (take 1 (views new)). identity_of sc = (JStr n, path s, parent s, Some c)"
          and rest: "\<forall>sc \<in> set (tl (views new)). identity_of sc = (JStr n, path s, parent s, Some c)"
          and fin: "closed ?r \<or> (name ?r = JStr n \<and> path ?r = path s \<and> parent ?r = parent s \<and>
            children ?r = Some c)"
          by (auto simp: Let_def)
        have all: "\<forall>sc \<in> set (views (Install b # new)). identity_of sc = (JStr n, path s, parent s, Some c)"
          using first rest in_set_take1_tl [of _ "views new"] by auto
        have "trace ?r = trace s @ (Install b # new)" using tr by simp
        then have "\<exists>new'. trace ?r = trace s @ new' \<and>
            (\<forall>sc \<in> set (views new'). identity_of sc = (JStr n, path s, parent s, Some c))"
          using all by blast
        then show "case processNext s nxt of
            Inl (e, r) \<Rightarrow> r = s
          | Inr r \<Rightarrow>
              (\<exists>new. trace r = trace s @ new \<and>
                 (\<forall>sc \<in> set (views new). identity_of sc = (JStr n, path s, parent s, Some c))) \<and>
              (closed r \<or>
               (name r = JStr n \<and> path r = path s \<and> parent r = parent s \<and> children r = Some c))"
          using fin by (simp add: Callable Cons processNext_Callable)
      qed
    qed
  next
    case Falsy
    then show ?thesis by (simp add: processNext_Falsy stop_def dispatch_def)
  next
    case Unsupported
    then show ?thesis by (simp add: processNext_Unsupported)
  qed
next
  case (2 s msg)
  show ?case
  proof (intro impI)
    assume nc: "\<not> closed s" and fs: "f s \<noteq> Falsy" and ch: "children s = Some c'"
    let ?goal = "\<lambda>r. (\<exists>new. trace r = trace s @ new \<and>
            (\<forall>sc \<in> set (take 1 (views new)).
               identity_of sc = (name s, path s, parent s, Some c')) \<and>
            (\<forall>sc \<in> set (tl (views new)).
               identity_of sc = (JStr (to_string (name s)), path s, parent s, Some c'))) \<and>
         (closed r \<or>
          (name r = JStr (to_string (name s)) \<and> path r = path s \<and> parent r = parent s \<and>
           children r = Some c'))"
    have "?goal (handleMessage s msg)"
    proof (cases "f s")
      case (Callable b)
      let ?s1 = "s\<lparr>busy := True, sender := fst msg\<rparr>"
      obtain s2 out where inv: "invoke ?s1 b (snd msg) = (s2, out)"
        by (cases "invoke ?s1 b (snd msg)") auto
      note hm = handleMessage_Callable [OF Callable ch inv]
      note fr = invoke_frame [OF inv]
      have c2: "\<not> closed s2" using fr(5) nc by simp
      have t2: "trace s2 = trace s @ [Invoke b (scope_of ?s1) (snd msg)]" using fr(7) by simp
      have v1: "identity_of (scope_of ?s1) = (name s, path s, parent s, Some c')"
        using ch by simp
      show ?thesis
      proof (cases out)
        case (Return nxt)
        let ?s3 = "restore s2 (to_string (name s)) (path s) (parent s) c'"
        have ih: "\<not> closed ?s3 \<longrightarrow> name ?s3 = JStr (to_string (name s)) \<longrightarrow> children ?s3 = Some c' \<longrightarrow>
          (case processNext ?s3 nxt of
             Inl (e, r) \<Rightarrow> r = ?s3
           | Inr r \<Rightarrow>
              (\<exists>new. trace r = trace ?s3 @ new \<and>
                 (\<forall>sc \<in> set (views new).
                    identity_of sc = (JStr (to_string (name s)), path ?s3, parent ?s3, Some c'))) \<and>
              (closed r \<or>
               (name r = JStr (to_string (name s)) \<and> path r = path ?s3 \<and> parent r = parent ?s3 \<and>
                children r = Some c')))"
          by (rule "2.IH" [of "s\<lparr>busy := True\<rparr>" c' "to_string (name s)" "path s" "parent s"
                ?s1 b s2 out nxt])
             (simp_all add: fs ch Callable inv Return)
        have s3: "\<not> closed ?s3" "name ?s3 = JStr (to_string (name s))" "children ?s3 = Some c'"
          "path ?s3 = path s" "parent ?s3 = parent s" "trace ?s3 = trace s2"
          using c2 by (simp_all add: restore_def)
        show ?thesis
        proof (cases "processNext ?s3 nxt")
          case (Inl er)
          obtain e r where er: "er = (e, r)" by (cases er) auto
          have r: "r = ?s3" using ih s3 Inl er by simp
          have "trace (signalFault ?s3 e) = trace s @ [Invoke b (scope_of ?s1) (snd msg)]"
            using s3 t2 by (simp add: signalFault_def)
          then have "?goal (signalFault ?s3 e)"
            using v1 by (simp add: signalFault_def)
          then show ?thesis by (simp add: hm Return Inl er r)
        next
          case (Inr r)
          from ih s3 Inr obtain new where
            tr: "trace r = trace s2 @ new"
            and vs: "\<forall>sc \<in> set (views new).
                identity_of sc = (JStr (to_string (name s)), path s, parent s, Some c')"
            and fin: "closed r \<or> (name r = JStr (to_string (name s)) \<and> path r = path s \<and>
                parent r = parent s \<and> children r = Some c')"
            by auto
          have "trace r = trace s @ (Invoke b (scope_of ?s1) (snd msg) # new)"
            using tr t2 by simp
          moreover have "\<forall>sc \<in> set (take 1 (views (Invoke b (scope_of ?s1) (snd msg) # new))).
              identity_of sc = (name s, path s, parent s, Some c')"
            using v1 by simp
          moreover have "\<forall>sc \<in> set (tl (views (Invoke b (scope_of ?s1) (snd msg) # new))).
              identity_of sc = (JStr (to_string (name s)), path s, parent s, Some c')"
            using vs by simp
          ultimately have "?goal r" using fin by blast
          then show ?thesis by (simp add: hm Return Inr)
        qed
      next
        case ReturnPromise
        let ?r = "(restore s2 (to_string (name s)) (path s) (parent s) c')\<lparr>awaiting := awaiting s + 1\<rparr>"
        have "trace ?r = trace s @ [Invoke b (scope_of ?s1) (snd msg)]"
          using t2 by (simp add: restore_def)
        then have "?goal ?r"
          using v1 by (simp add: restore_def)
        then show ?thesis by (simp add: hm ReturnPromise)
      next
        case (Throw e)
        have "trace (signalFault s2 e) = trace s @ [Invoke b (scope_of ?s1) (snd msg)]"
          using t2 by (simp add: signalFault_def)
        then have "?goal (signalFault s2 e)"
          using v1 by (simp add: signalFault_def)
        then show ?thesis by (simp add: hm Throw)
      qed
    next
      case Falsy
      then show ?thesis using fs by simp
    next
      case Unsupported
      then show ?thesis
        by (simp add: handleMessage_Unsupported [OF Unsupported ch] signalFault_def)
    qed
    then show "let r = handleMessage s msg in ?goal r" by (simp add: Let_def)
  qed
qed

text \<open>
  C2, as amended. Whenever a worker with a behaviour installed handles a message and
  does not fault, \<open>path\<close>, \<open>parent\<close> and \<open>children\<close> hold, when \<open>handleMessage\<close> returns,
  what they held before, and \<open>name\<close> holds the string coercion of what it held before,
  which is the same value when that was a string; this is so whatever the synchronous
  parts of the behaviours called on the way assigned to the four bindings. The first call
  reads the four bindings as they were; every later call made while the mailbox is
  drained reads these restored values. The statement is about synchronous parts only:
  \<open>handleMessage\<close> has returned before any continuation runs.
\<close>

theorem bindings_restored:
  assumes "f s \<noteq> Falsy" and "children s = Some c" and "\<not> closed s"
  shows "let r = handleMessage s msg
         in (closed r \<or>
             (name r = JStr (to_string (name s)) \<and> (\<forall>n. name s = JStr n \<longrightarrow> name r = name s) \<and>
              path r = path s \<and> parent r = parent s \<and> children r = Some c)) \<and>
            (\<exists>new. trace r = trace s @ new \<and>
               (\<forall>sc \<in> set (take 1 (views new)).
                  identity_of sc = (name s, path s, parent s, Some c)) \<and>
               (\<forall>sc \<in> set (tl (views new)).
                  identity_of sc = (JStr (to_string (name s)), path s, parent s, Some c)))"
  using bindings_loop(2) [of s c msg] assms by (auto simp: Let_def)

lemma named_eq:
  "named = initial\<lparr>f := Callable meddling, name := JStr ''a'', path := JStr ''/a'',
     parent := JStr ''/'', children := Some [(JStr ''b'', JStr ''/a/b'')]\<rparr>"
  by (simp add: named_def run_def step_def initial_def onmessage_def same_key_def)

lemma numbered_eq:
  "numbered = initial\<lparr>f := Callable meddling, name := JNum ''5'', path := JStr ''/a'',
     parent := JStr ''/'', children := Some []\<rparr>"
  by (simp add: numbered_def run_def step_def initial_def onmessage_def)

lemma meddling_queued:
  "handleMessage queued (JNull, JStr ''m1'') =
     named\<lparr>sender := JStr ''/'', f := Callable (countdown 0),
       trace := [Invoke meddling (scope_of (named\<lparr>sender := JNull\<rparr>)) (JStr ''m1''),
                 Install (countdown 1),
                 Invoke (countdown 1) (scope_of (named\<lparr>sender := JStr ''/''\<rparr>)) (JStr ''m2''),
                 Install (countdown 0)]\<rparr>"
  by (simp add: queued_def named_eq initial_def handleMessage.simps processNext.simps invoke_def
      meddling_def exec_def restore_def isEmpty_def dequeue_def Queue_empty_def scope_of_def Let_def)

theorem bindings_restored_witness:
  "f queued \<noteq> Falsy \<and> children queued = Some [(JStr ''b'', JStr ''/a/b'')] \<and> \<not> closed queued \<and>
   \<not> closed (handleMessage queued (JNull, JStr ''m1'')) \<and>
   name (handleMessage queued (JNull, JStr ''m1'')) = JStr ''a'' \<and>
   path (handleMessage queued (JNull, JStr ''m1'')) = JStr ''/a'' \<and>
   parent (handleMessage queued (JNull, JStr ''m1'')) = JStr ''/'' \<and>
   children (handleMessage queued (JNull, JStr ''m1'')) = Some [(JStr ''b'', JStr ''/a/b'')] \<and>
   map identity_of (views (trace (handleMessage queued (JNull, JStr ''m1'')))) =
     [(JStr ''a'', JStr ''/a'', JStr ''/'', Some [(JStr ''b'', JStr ''/a/b'')]),
      (JStr ''a'', JStr ''/a'', JStr ''/'', Some [(JStr ''b'', JStr ''/a/b'')])]"
  using bindings_restored [of queued "[(JStr ''b'', JStr ''/a/b'')]" "(JNull, JStr ''m1'')"]
  by (simp add: meddling_queued) (simp add: queued_def named_eq initial_def)

text \<open>
  C2 as stated fails, in two ways. A \<open>name\<close> that is not a string is not restored to its
  value before the invocation: with \<open>payload.name\<close> the number 5, \<open>name\<close> is the string
  \<open>5\<close> after the first invocation has returned. And an assignment that a behaviour
  makes after its synchronous part is never undone: when the continuation of a pending
  result assigns \<open>name\<close> and \<open>path\<close>, the next invocation reads the assigned values.
\<close>

theorem bindings_not_always_restored:
  "name numbered = JNum ''5'' \<and>
   name (handleMessage numbered (JNull, JStr ''m'')) = JStr ''5'' \<and>
   \<not> closed (handleMessage numbered (JNull, JStr ''m'')) \<and>
   map identity_of (views (trace overwritten)) =
     [(JStr ''a'', JStr ''/a'', JStr ''/'', Some []),
      (JStr ''x'', JStr ''/evil'', JStr ''/'', Some [])] \<and>
   name overwritten = JStr ''x'' \<and> path overwritten = JStr ''/evil'' \<and> \<not> closed overwritten"
proof -
  have a: "name numbered = JNum ''5''"
    "name (handleMessage numbered (JNull, JStr ''m'')) = JStr ''5''"
    "\<not> closed (handleMessage numbered (JNull, JStr ''m''))"
    by (simp_all add: numbered_eq initial_def handleMessage.simps processNext.simps invoke_def
        meddling_def exec_def restore_def isEmpty_def Queue_empty_def Let_def)
  have b: "map identity_of (views (trace overwritten)) =
     [(JStr ''a'', JStr ''/a'', JStr ''/'', Some []),
      (JStr ''x'', JStr ''/evil'', JStr ''/'', Some [])]"
    "name overwritten = JStr ''x''" "path overwritten = JStr ''/evil''" "\<not> closed overwritten"
    by (simp_all add: overwritten_def run_def step_def initial_def onmessage_def
        handleMessage.simps processNext.simps invoke_def later_def exec_def restore_def
        isEmpty_def Queue_empty_def Let_def)
  show ?thesis using a b by simp
qed

subsection \<open>Faults\<close>

text \<open>
  C3 fails on the code for the settled value of a promise. The callback given to
  \<open>next.then\<close> calls \<open>processNext\<close> outside the \<open>try\<close> of \<open>handleMessage\<close>, so the
  \<open>TypeError\<close> for a value that is neither a function nor falsy reaches no \<open>catch\<close>: no
  \<open>faulted\<close> message is posted, the worker is not closed and stays busy, and a later
  \<open>tell\<close> is queued. The same value returned directly, and a behaviour that throws, do
  post one \<open>faulted\<close> message and close the worker, which then gets no further \<open>tell\<close>.
\<close>

theorem settled_unsupported_is_not_reported:
  "\<not> closed unreported \<and> posted unreported = [] \<and> busy unreported \<and>
   awaiting unreported = 0 \<and> mailbox unreported = [(JStr ''/'', JStr ''m2'')] \<and>
   messages (trace unreported) = [JStr ''m1''] \<and>
   closed reported \<and>
   posted reported = [Faulted (JStr ''/a'') (TypeError ''Unsupported Type'')] \<and>
   mailbox reported = [] \<and> messages (trace reported) = [JStr ''m1''] \<and>
   closed thrown \<and> posted thrown = [Faulted (JStr ''/a'') (Error ''boom'')] \<and>
   mailbox thrown = [] \<and> messages (trace thrown) = [JStr ''m1'']"
  by (simp add: unreported_def reported_def thrown_def run_def step_def initial_def onmessage_def
      handleMessage.simps processNext.simps invoke_def later_def unsupported_def throwing_def
      restore_def signalFault_def enqueue_def isEmpty_def Queue_empty_def Let_def messages_def)

subsection \<open>Order of handling\<close>














subsection \<open>A tell without a behaviour\<close>

lemma one_loop:
  "(busy s \<longrightarrow> awaiting s = 0 \<longrightarrow>
     (case processNext s nxt of Inl (e, r) \<Rightarrow> r = s | Inr r \<Rightarrow> one_at_a_time r))"
  "(awaiting s' = 0 \<longrightarrow> one_at_a_time (handleMessage s' msg))"
proof (induction s nxt and s' msg rule: processNext_handleMessage.induct)
  case (1 s nxt)
  show ?case
  proof (cases nxt)
    case (Callable b)
    show ?thesis
    proof (cases "mailbox s")
      case Nil
      then show ?thesis by (simp add: Callable processNext_Callable one_at_a_time_def)
    next
      case (Cons msg rest)
      let ?x = "s\<lparr>f := Callable b, trace := trace s @ [Install b]\<rparr>"
      have "awaiting (?x\<lparr>mailbox := rest\<rparr>) = 0 \<longrightarrow>
          one_at_a_time (handleMessage (?x\<lparr>mailbox := rest\<rparr>) msg)"
        by (rule "1.IH" [of b ?x "(msg, rest)" msg rest])
           (simp_all add: Callable Cons isEmpty_def dequeue_def)
      then show ?thesis by (simp add: Callable Cons processNext_Callable)
    qed
  next
    case Falsy
    then show ?thesis by (simp add: processNext_Falsy stop_def dispatch_def one_at_a_time_def)
  next
    case Unsupported
    then show ?thesis by (simp add: processNext_Unsupported)
  qed
next
  case (2 s msg)
  show ?case
  proof (intro impI)
    assume aw: "awaiting s = 0"
    show "one_at_a_time (handleMessage s msg)"
    proof (cases "f s")
      case Falsy
      then show ?thesis using aw by (simp add: handleMessage_Falsy one_at_a_time_def)
    next
      case Unsupported
      then show ?thesis
        using aw
        by (cases "children s")
           (simp_all add: handleMessage_no_Map handleMessage_Unsupported signalFault_def
             one_at_a_time_def)
    next
      case (Callable b)
      show ?thesis
      proof (cases "children s")
        case None
        then show ?thesis
          using aw Callable by (simp add: handleMessage_no_Map signalFault_def one_at_a_time_def)
      next
        case (Some c)
        obtain s2 out where inv: "invoke (s\<lparr>busy := True, sender := fst msg\<rparr>) b (snd msg) = (s2, out)"
          by (cases "invoke (s\<lparr>busy := True, sender := fst msg\<rparr>) b (snd msg)") auto
        note hm = handleMessage_Callable [OF Callable Some inv]
        note fr = invoke_frame [OF inv]
        show ?thesis
        proof (cases out)
          case (Return nxt)
          let ?s3 = "restore s2 (to_string (name s)) (path s) (parent s) c"
          have ih: "busy ?s3 \<longrightarrow> awaiting ?s3 = 0 \<longrightarrow>
              (case processNext ?s3 nxt of Inl (e, r) \<Rightarrow> r = ?s3 | Inr r \<Rightarrow> one_at_a_time r)"
            by (rule "2.IH" [of "s\<lparr>busy := True\<rparr>" c "to_string (name s)" "path s" "parent s"
                  "s\<lparr>busy := True, sender := fst msg\<rparr>" b s2 out nxt])
               (simp_all add: Callable Some inv Return)
          have pre3: "busy ?s3" "awaiting ?s3 = 0"
            using aw by (simp_all add: restore_def fr)
          show ?thesis
          proof (cases "processNext ?s3 nxt")
            case (Inl er)
            then show ?thesis
              using ih pre3
              by (cases er) (auto simp: hm Return signalFault_def one_at_a_time_def)
          next
            case (Inr r)
            then show ?thesis using ih pre3 by (simp add: hm Return)
          qed
        next
          case ReturnPromise
          then show ?thesis
            using aw by (simp add: hm restore_def one_at_a_time_def fr)
        next
          case (Throw e)
          then show ?thesis
            using aw by (simp add: hm signalFault_def one_at_a_time_def fr)
        qed
      qed
    qed
  qed
qed

lemma one_step: "one_at_a_time s \<Longrightarrow> one_at_a_time (step s ev)"
proof (cases "closed s")
  case True
  then show "one_at_a_time s \<Longrightarrow> ?thesis" by (simp add: step_def)
next
  case nc: False
  assume one: "one_at_a_time s"
  show ?thesis
  proof (cases ev)
    case (Deliver env)
    show ?thesis
    proof (cases env)
      case (Tell a m)
      show ?thesis
      proof (cases "\<not> stopped s \<and> \<not> busy s")
        case True
        then have "awaiting s = 0" using one by (auto simp: one_at_a_time_def)
        then show ?thesis
          using one_loop(2) [of s "(a, m)"] True nc Deliver Tell
          by (simp add: step_def onmessage_def)
      next
        case False
        then show ?thesis
          using one nc Deliver Tell by (auto simp: step_def onmessage_def one_at_a_time_def)
      qed
    qed (use one nc Deliver in \<open>auto simp: step_def onmessage_def one_at_a_time_def signalFault_def
          Let_def split: option.splits sum.splits\<close>)
  next
    case (Settle v)
    show ?thesis
    proof (cases "awaiting s = 0")
      case True
      then show ?thesis using one nc Settle by (simp add: step_def)
    next
      case False
      let ?s = "s\<lparr>awaiting := awaiting s - 1\<rparr>"
      have pre: "busy ?s" "awaiting ?s = 0"
        using one False by (auto simp: one_at_a_time_def)
      have res: "case processNext ?s v of Inl (e, r) \<Rightarrow> r = ?s | Inr r \<Rightarrow> one_at_a_time r"
        using one_loop(1) [of ?s v] pre by blast
      have stuck: "one_at_a_time ?s" using pre by (simp add: one_at_a_time_def)
      show ?thesis
      proof (cases "processNext ?s v")
        case (Inl er)
        then show ?thesis using res stuck nc Settle False by (cases er) (auto simp: step_def)
      next
        case (Inr r)
        then show ?thesis using res nc Settle False by (simp add: step_def)
      qed
    qed
  next
    case SettleRejected
    then show ?thesis using one nc by (auto simp: step_def one_at_a_time_def)
  next
    case (Reaction d)
    then show ?thesis using one nc by (auto simp: step_def one_at_a_time_def)
  next
    case NextTick
    then show ?thesis using one nc by (auto simp: step_def one_at_a_time_def split: list.splits)
  next
    case (Continue stmts)
    then show ?thesis using one nc by (simp add: step_def one_at_a_time_def)
  qed
qed

lemma one_run: "one_at_a_time s \<Longrightarrow> one_at_a_time (run s evs)"
  unfolding run_def by (induction evs arbitrary: s) (simp_all add: one_step)

lemma one_initial: "one_at_a_time initial"
  by (simp add: one_at_a_time_def initial_def)

lemma blocked_step: "blocked s r \<Longrightarrow> blocked s (step r ev)"
proof (cases "closed r")
  case True
  then show "blocked s r \<Longrightarrow> ?thesis" by (simp add: step_def)
next
  case nc: False
  assume bl: "blocked s r"
  then have b: "busy r" "awaiting r = 0" "trace r = trace s" "\<not> stopped r"
    "prefix (mailbox s) (mailbox r)"
    using nc by (auto simp: blocked_def)
  show ?thesis
  proof (cases ev)
    case (Deliver env)
    show ?thesis
    proof (cases env)
      case (Initialize factory n p q bind)
      then show ?thesis
        using b nc Deliver
        by (simp add: step_def onmessage_def blocked_def signalFault_def Let_def
            split: option.splits sum.splits)
    next
      case (ChildSpawned n c)
      then show ?thesis
        using b nc Deliver
        by (simp add: step_def onmessage_def blocked_def signalFault_def split: option.splits)
    next
      case (ChildStopped c)
      then show ?thesis
        using b nc Deliver
        by (simp add: step_def onmessage_def blocked_def signalFault_def split: option.splits)
    next
      case (EffectApplied i v)
      then show ?thesis
        using b nc Deliver
        by (simp add: step_def onmessage_def blocked_def Let_def split: option.splits)
    next
      case (EffectFailed i v)
      then show ?thesis
        using b nc Deliver
        by (simp add: step_def onmessage_def blocked_def Let_def split: option.splits)
    next
      case (Tell a m)
      then show ?thesis
        using b nc Deliver by (simp add: step_def onmessage_def blocked_def enqueue_def)
    next
      case Stop
      then show ?thesis using b nc Deliver by (simp add: step_def onmessage_def blocked_def)
    next
      case (Unknown a)
      then show ?thesis using b nc Deliver by (simp add: step_def onmessage_def blocked_def)
    next
      case Malformed
      then show ?thesis
        using b nc Deliver by (simp add: step_def onmessage_def blocked_def signalFault_def)
    qed
  next
    case (Settle v)
    then show ?thesis using bl nc by (simp add: step_def blocked_def)
  next
    case SettleRejected
    then show ?thesis using bl nc by (simp add: step_def blocked_def)
  next
    case (Reaction d)
    then show ?thesis using b nc by (simp add: step_def blocked_def)
  next
    case NextTick
    then show ?thesis using b nc by (simp add: step_def blocked_def split: list.splits)
  next
    case (Continue stmts)
    then show ?thesis using b nc by (simp add: step_def blocked_def)
  qed
qed

lemma blocked_run: "blocked s r \<Longrightarrow> blocked s (run r evs)"
  unfolding run_def by (induction evs arbitrary: r) (simp_all add: blocked_step)

text \<open>
  C9. Take a worker reached from the initial one by any events, idle, neither stopped
  nor closed, with no behaviour installed (\<open>f\<close> is falsy). A \<open>tell\<close> envelope makes it
  busy and calls nothing. After any further events, an \<open>initialize\<close> among them or
  not, it is still busy, no behaviour has been called, nothing has left the mailbox, and
  as long as it is not closed every \<open>tell\<close> envelope is appended to the mailbox.
\<close>

theorem tell_without_behavior_blocks:
  assumes "s = run initial evs0" and "f s = Falsy" and "\<not> busy s" and "\<not> stopped s"
    and "\<not> closed s"
  shows "let s1 = step s (Deliver (Tell a m)); s' = run s1 evs
         in s1 = s\<lparr>busy := True\<rparr> \<and>
            busy s' \<and> trace s' = trace s \<and> awaiting s' = 0 \<and>
            prefix (mailbox s) (mailbox s') \<and>
            (\<not> closed s' \<longrightarrow>
               step s' (Deliver (Tell a' m')) = s'\<lparr>mailbox := mailbox s' @ [(a', m')]\<rparr>)"
proof -
  have "one_at_a_time s"
    using assms(1) one_run [OF one_initial] by simp
  then have aw: "awaiting s = 0"
    using assms(3) by (auto simp: one_at_a_time_def)
  have s1: "step s (Deliver (Tell a m)) = s\<lparr>busy := True\<rparr>"
    using assms by (simp add: step_def onmessage_def handleMessage_Falsy)
  have "blocked s (s\<lparr>busy := True\<rparr>)"
    using assms aw by (simp add: blocked_def)
  then have bl: "blocked s (run (s\<lparr>busy := True\<rparr>) evs)"
    by (rule blocked_run)
  have after: "\<not> closed (run (s\<lparr>busy := True\<rparr>) evs) \<Longrightarrow>
      step (run (s\<lparr>busy := True\<rparr>) evs) (Deliver (Tell a' m')) =
        (run (s\<lparr>busy := True\<rparr>) evs)\<lparr>mailbox := mailbox (run (s\<lparr>busy := True\<rparr>) evs) @ [(a', m')]\<rparr>"
    using bl by (simp add: blocked_def step_def onmessage_def enqueue_def)
  show ?thesis
    using bl after by (simp add: s1 Let_def blocked_def)
qed

theorem tell_without_behavior_blocks_witness:
  "unready = run initial
     [Deliver (Initialize (Inr Falsy) (JStr ''a'') (JStr ''/a'') (JStr ''/'') None)] \<and>
   f unready = Falsy \<and> \<not> busy unready \<and> \<not> stopped unready \<and> \<not> closed unready \<and>
   busy (run (step unready (Deliver (Tell (JStr ''/'') (JStr ''m1'')))) afterwards) \<and>
   trace (run (step unready (Deliver (Tell (JStr ''/'') (JStr ''m1'')))) afterwards) = [] \<and>
   mailbox (run (step unready (Deliver (Tell (JStr ''/'') (JStr ''m1'')))) afterwards) =
     [(JStr ''/'', JStr ''m2''), (JStr ''/'', JStr ''m3'')] \<and>
   \<not> closed (run (step unready (Deliver (Tell (JStr ''/'') (JStr ''m1'')))) afterwards)"
proof -
  have eq: "unready = initial\<lparr>name := JStr ''a'', path := JStr ''/a'',
     parent := JStr ''/'', children := Some []\<rparr>"
    by (simp add: unready_def run_def step_def initial_def onmessage_def)
  have hyps: "f unready = Falsy" "\<not> busy unready" "\<not> stopped unready" "\<not> closed unready"
    by (simp_all add: eq initial_def)
  have r: "run (step unready (Deliver (Tell (JStr ''/'') (JStr ''m1'')))) afterwards =
      unready\<lparr>busy := True, f := Callable (countdown 2),
        mailbox := [(JStr ''/'', JStr ''m2''), (JStr ''/'', JStr ''m3'')]\<rparr>"
    by (simp add: eq afterwards_def run_def step_def initial_def onmessage_def
        handleMessage.simps enqueue_def Queue_empty_def Let_def)
  have "let s1 = step unready (Deliver (Tell (JStr ''/'') (JStr ''m1''))); s' = run s1 afterwards
      in s1 = unready\<lparr>busy := True\<rparr> \<and> busy s' \<and> trace s' = trace unready \<and> awaiting s' = 0 \<and>
         prefix (mailbox unready) (mailbox s') \<and>
         (\<not> closed s' \<longrightarrow>
            step s' (Deliver (Tell JNull JNull)) = s'\<lparr>mailbox := mailbox s' @ [(JNull, JNull)]\<rparr>)"
    using hyps by (intro tell_without_behavior_blocks [of unready]) (simp_all add: unready_def)
  then have a: "busy (run (step unready (Deliver (Tell (JStr ''/'') (JStr ''m1'')))) afterwards)"
    and b: "trace (run (step unready (Deliver (Tell (JStr ''/'') (JStr ''m1'')))) afterwards) =
      trace unready"
    unfolding Let_def by blast+
  have t: "trace unready = []"
    by (simp add: eq initial_def)
  have c: "mailbox (run (step unready (Deliver (Tell (JStr ''/'') (JStr ''m1'')))) afterwards) =
      [(JStr ''/'', JStr ''m2''), (JStr ''/'', JStr ''m3'')]"
    and d: "\<not> closed (run (step unready (Deliver (Tell (JStr ''/'') (JStr ''m1'')))) afterwards)"
    by (simp_all add: r) (simp add: eq initial_def)
  show ?thesis
    using hyps a b [unfolded t] c d by (intro conjI) (rule unready_def, assumption+)
qed

end
